theory Spec2Isabelle
  imports Main "HOL-Library.Word"
begin

unbundle bit_operations_syntax

section \<open>Bytes\<close>

text \<open>
  Python \<open>bytes\<close> and \<open>bytearray\<close> values are lists of 8-bit words. A slice
  \<open>b[i:j]\<close> with \<open>0 \<le> i \<le> j\<close> never raises: it is cut to what is there.
\<close>

type_synonym byte = "8 word"
type_synonym bytes = "byte list"

definition slice :: "nat \<Rightarrow> nat \<Rightarrow> 'a list \<Rightarrow> 'a list" where
  "slice i j xs = take (j - i) (drop i xs)"

text \<open>\<open>int.from_bytes(b, "big")\<close>: the first byte is the most significant.\<close>

definition from_bytes_big :: "bytes \<Rightarrow> int" where
  "from_bytes_big bs = foldl (\<lambda>a b. 256 * a + uint b) 0 bs"

text \<open>\<open>int.from_bytes(b, "little", signed=True)\<close>: two's complement on \<open>8 * len(b)\<close> bits.\<close>

definition from_bytes_little :: "bytes \<Rightarrow> int" where
  "from_bytes_little bs = foldr (\<lambda>b a. uint b + 256 * a) bs 0"

definition from_bytes_little_signed :: "bytes \<Rightarrow> int" where
  "from_bytes_little_signed bs =
     (let u = from_bytes_little bs; n = 8 * length bs
      in if bs \<noteq> [] \<and> 2 ^ (n - 1) \<le> u then u - 2 ^ n else u)"

section \<open>The CTR cipher object returned by \<open>create_aes\<close>\<close>

text \<open>
  \<open>create_aes(key, iv)\<close> (lines 16-26) builds the library's AES-CTR object with a 128-bit
  counter that starts at \<open>iv\<close>. The AES block function itself is not part of the program:
  it is a parameter \<open>E\<close> of the model, from a key and a 128-bit counter block to a 128-bit
  keystream block. The mode of operation follows the \<open>pyaes\<close> branch (lines 24-26):

  \<^verbatim>\<open>
  def encrypt(self, plaintext):
      while len(self._remaining_counter) < len(plaintext):
          self._remaining_counter += self._aes.encrypt(self._counter.value)
          self._counter.increment()
      encrypted = [ (p ^ c) for (p, c) in zip(plaintext, self._remaining_counter) ]
      self._remaining_counter = self._remaining_counter[len(encrypted):]
      return encrypted
  def decrypt(self, crypttext):
      return self.encrypt(crypttext)
  \<close>

  The counter is a big-endian 128-bit integer and \<open>increment\<close> wraps it to zero after
  \<open>2^128 - 1\<close>. Keystream bytes of a block that a call did not use are kept for the
  next call. The library accepts keys of 16, 24 or 32 bytes and raises \<open>ValueError\<close>
  for any other length.
\<close>

type_synonym block_fn = "bytes \<Rightarrow> 128 word \<Rightarrow> 128 word"

datatype exc =
    IncompleteReadError
  | ConnectionResetError
  | BrokenPipeError
  | ConnectionRefusedError
  | OSError
  | AttributeError
  | ValueError
  | NameError

text \<open>The 16 bytes of a 128-bit block, most significant first.\<close>

definition block_bytes :: "128 word \<Rightarrow> bytes" where
  "block_bytes w = map (\<lambda>i. ucast (drop_bit (8 * i) w)) (rev [0..<16])"

text \<open>
  \<open>hashlib.sha256(m).digest()\<close>: the hash function is a parameter \<open>H\<close> too, with a
  256-bit value; the digest is its 32 bytes, most significant first.
\<close>

type_synonym hash_fn = "bytes \<Rightarrow> 256 word"

definition sha256 :: "hash_fn \<Rightarrow> bytes \<Rightarrow> bytes" where
  "sha256 H m = map (\<lambda>i. ucast (drop_bit (8 * i) (H m))) (rev [0..<32])"

record aes_ctr =
  aes_key :: bytes
  counter :: "128 word"
  remaining_counter :: bytes

definition create_aes :: "bytes \<Rightarrow> int \<Rightarrow> exc + aes_ctr" where
  "create_aes key iv =
     (if length key \<in> {16, 24, 32}
      then Inr \<lparr>aes_key = key, counter = word_of_int iv, remaining_counter = []\<rparr>
      else Inl ValueError)"

text \<open>The \<open>while\<close> loop of \<open>encrypt\<close>: one keystream block per turn.\<close>

function refill :: "block_fn \<Rightarrow> aes_ctr \<Rightarrow> nat \<Rightarrow> aes_ctr" where
  "refill E c n =
     (if length (remaining_counter c) < n
      then refill E
             (c\<lparr>remaining_counter := remaining_counter c @ block_bytes (E (aes_key c) (counter c)),
                counter := counter c + 1\<rparr>) n
      else c)"
  by pat_completeness auto
termination
  by (relation "measure (\<lambda>(E, c, n). n - length (remaining_counter c))")
     (auto simp: block_bytes_def)

declare refill.simps [simp del]

definition aes_encrypt :: "block_fn \<Rightarrow> aes_ctr \<Rightarrow> bytes \<Rightarrow> bytes \<times> aes_ctr" where
  "aes_encrypt E c plaintext =
     (let c' = refill E c (length plaintext);
          encrypted = map (\<lambda>(p, k). p XOR k) (zip plaintext (remaining_counter c'))
      in (encrypted,
          c'\<lparr>remaining_counter := drop (length encrypted) (remaining_counter c')\<rparr>))"

definition aes_decrypt :: "block_fn \<Rightarrow> aes_ctr \<Rightarrow> bytes \<Rightarrow> bytes \<times> aes_ctr" where
  "aes_decrypt E c crypttext = aes_encrypt E c crypttext"

text \<open>
  The cipher slot of a stream wrapper holds either a CTR object or, after the fast-mode
  swap of \<open>handle_client\<close> (lines 215-225), a \<open>FakeEncryptor\<close> / \<open>FakeDecryptor\<close>
  whose method returns its argument.
\<close>

datatype cipher = Ctr aes_ctr | Fake

fun encrypt :: "block_fn \<Rightarrow> cipher \<Rightarrow> bytes \<Rightarrow> bytes \<times> cipher" where
  "encrypt E (Ctr c) data = (let (out, c') = aes_encrypt E c data in (out, Ctr c'))"
| "encrypt E Fake data = (data, Fake)"

fun decrypt :: "block_fn \<Rightarrow> cipher \<Rightarrow> bytes \<Rightarrow> bytes \<times> cipher" where
  "decrypt E (Ctr c) data = (let (out, c') = aes_decrypt E c data in (out, Ctr c'))"
| "decrypt E Fake data = (data, Fake)"

text \<open>
  Successive calls on one cipher object, one per chunk, as a stream wrapper makes them:
  the outputs in order, and the object's state after the last call.
\<close>

fun encrypt_chunks :: "block_fn \<Rightarrow> aes_ctr \<Rightarrow> bytes list \<Rightarrow> bytes list \<times> aes_ctr" where
  "encrypt_chunks E c [] = ([], c)"
| "encrypt_chunks E c (x # xs) =
     (let (y, c') = aes_encrypt E c x; (ys, c'') = encrypt_chunks E c' xs in (y # ys, c''))"

fun decrypt_chunks :: "block_fn \<Rightarrow> aes_ctr \<Rightarrow> bytes list \<Rightarrow> bytes list \<times> aes_ctr" where
  "decrypt_chunks E c [] = ([], c)"
| "decrypt_chunks E c (x # xs) =
     (let (y, c') = aes_decrypt E c x; (ys, c'') = decrypt_chunks E c' xs in (y # ys, c''))"

text \<open>
  A way of splitting a byte string into successive chunks: the lengths of the chunks in
  order, the last chunk taking what is left.
\<close>

fun split_chunks :: "nat list \<Rightarrow> bytes \<Rightarrow> bytes list" where
  "split_chunks [] x = [x]"
| "split_chunks (n # ns) x = take n x # split_chunks ns (drop n x)"


section \<open>Constants and configuration\<close>

definition TG_DATACENTER_PORT :: nat where "TG_DATACENTER_PORT = 443"

definition TG_DATACENTERS_V4 :: "string list" where
  "TG_DATACENTERS_V4 =
     [''149.154.175.50'', ''149.154.167.51'', ''149.154.175.100'',
      ''149.154.167.91'', ''149.154.171.5'']"

definition TG_DATACENTERS_V6 :: "string list" where
  "TG_DATACENTERS_V6 =
     [''2001:b28:f23d:f001::a'', ''2001:67c:04e8:f002::a'', ''2001:b28:f23d:f003::a'',
      ''2001:67c:04e8:f004::a'', ''2001:b28:f23f:f005::a'']"

definition USE_MIDDLE_PROXY :: bool where "USE_MIDDLE_PROXY = False"

definition SKIP_LEN :: nat where "SKIP_LEN = 8"
definition PREKEY_LEN :: nat where "PREKEY_LEN = 32"
definition KEY_LEN :: nat where "KEY_LEN = 32"
definition IV_LEN :: nat where "IV_LEN = 16"
definition HANDSHAKE_LEN :: nat where "HANDSHAKE_LEN = 64"
definition MAGIC_VAL_POS :: nat where "MAGIC_VAL_POS = 56"

definition MAGIC_VAL_TO_CHECK :: bytes where
  "MAGIC_VAL_TO_CHECK = [0xEF, 0xEF, 0xEF, 0xEF]"

text \<open>
  The settings read from the \<open>config\<close> module (lines 29-38), which is not part of the
  program text: \<open>USERS\<close> is a dictionary from user names to hexadecimal secrets, kept
  here as the list of its items in iteration order (the keys of a dictionary are distinct).
\<close>

record config =
  USERS :: "(string \<times> string) list"
  PREFER_IPV6 :: bool
  FAST_MODE :: bool

section \<open>The statistics registry\<close>

text \<open>
  \<open>stats\<close> maps a user to a \<open>collections.Counter\<close> with the keys \<open>connects\<close>,
  \<open>curr_connects_x2\<close> and \<open>octets\<close>; a key that was never counted reads as 0.
\<close>

record user_stats =
  connects :: int
  curr_connects_x2 :: int
  octets :: int

type_synonym stats = "string \<rightharpoonup> user_stats"

definition empty_counter :: user_stats where
  "empty_counter = \<lparr>connects = 0, curr_connects_x2 = 0, octets = 0\<rparr>"

definition init_stats :: "(string \<times> string) list \<Rightarrow> stats" where
  "init_stats users = map_of (map (\<lambda>(user, secret). (user, empty_counter)) users)"

definition update_stats :: "string \<Rightarrow> int \<Rightarrow> int \<Rightarrow> int \<Rightarrow> stats \<Rightarrow> stats" where
  "update_stats user d_connects d_curr_connects_x2 d_octets st =
     (let c = (case st user of None \<Rightarrow> empty_counter | Some c \<Rightarrow> c)
      in st(user \<mapsto> c\<lparr>connects := connects c + d_connects,
                        curr_connects_x2 := curr_connects_x2 c + d_curr_connects_x2,
                        octets := octets c + d_octets\<rparr>))"

text \<open>What \<open>stat["curr_connects_x2"]\<close> reads for a user.\<close>

definition read_curr_connects_x2 :: "stats \<Rightarrow> string \<Rightarrow> int" where
  "read_curr_connects_x2 st user =
     (case st user of None \<Rightarrow> 0 | Some c \<Rightarrow> curr_connects_x2 c)"

section \<open>Streams and what the program does to them\<close>

text \<open>
  Exceptions form Python's hierarchy: \<open>ConnectionResetError\<close>, \<open>BrokenPipeError\<close>
  and \<open>ConnectionRefusedError\<close> are subclasses of \<open>OSError\<close>, so an
  \<open>except OSError\<close> clause catches them.
\<close>

definition is_OSError :: "exc \<Rightarrow> bool" where
  "is_OSError e = (e \<in> {ConnectionResetError, BrokenPipeError, ConnectionRefusedError, OSError})"

text \<open>
  What the client will deliver on its connection: some bytes, and then either the end of
  the stream or a transport fault. \<open>readexactly(n)\<close> returns the first \<open>n\<close> bytes when
  that many arrive, raises \<open>IncompleteReadError\<close> when the stream ends before, and raises
  the fault when the transport fails before.
\<close>

datatype ending = EOF | Fault exc

type_synonym stream_reader = "bytes \<times> ending"

definition readexactly :: "nat \<Rightarrow> stream_reader \<Rightarrow> exc + bytes" where
  "readexactly n reader =
     (case reader of (buf, e) \<Rightarrow>
        if n \<le> length buf then Inr (take n buf)
        else (case e of EOF \<Rightarrow> Inl IncompleteReadError | Fault x \<Rightarrow> Inl x))"

text \<open>The calls the program makes on the two connections, in the order it makes them.\<close>

datatype peer = Client | Telegram

datatype action =
    ReadExactly nat
  | OpenConnection string nat
  | Write peer bytes
  | Drain peer
  | WriteEof peer
  | Close peer

section \<open>\<open>handle_handshake\<close>\<close>

text \<open>\<open>bytes.fromhex\<close>: two hexadecimal digits per byte, ASCII whitespace between bytes
  is skipped, anything else raises \<open>ValueError\<close> (here \<open>None\<close>).\<close>

definition hex_digit :: "char \<Rightarrow> nat option" where
  "hex_digit c =
     (let n = (of_char c :: nat) in
      if 48 \<le> n \<and> n \<le> 57 then Some (n - 48)
      else if 97 \<le> n \<and> n \<le> 102 then Some (n - 87)
      else if 65 \<le> n \<and> n \<le> 70 then Some (n - 55)
      else None)"

definition is_space :: "char \<Rightarrow> bool" where
  "is_space c = ((of_char c :: nat) \<in> {9, 10, 11, 12, 13, 32})"

fun fromhex :: "string \<Rightarrow> bytes option" where
  "fromhex [] = Some []"
| "fromhex [c] = (if is_space c then Some [] else None)"
| "fromhex (c # d # cs) =
     (if is_space c then fromhex (d # cs)
      else (case (hex_digit c, hex_digit d) of
              (Some hi, Some lo) \<Rightarrow>
                (case fromhex cs of None \<Rightarrow> None
                 | Some bs \<Rightarrow> Some (of_nat (16 * hi + lo) # bs))
            | _ \<Rightarrow> None))"

text \<open>
  The value \<open>handle_handshake\<close> returns on a match: the two stream wrappers (each is
  its cipher slot; the streams under them are the client connection), the user, the
  datacenter index and \<open>enc_key + enc_iv\<close>.
\<close>

record clt_data =
  clt_reader :: cipher
  clt_writer :: cipher
  clt_user :: string
  clt_dc_idx :: int
  clt_enc_key_and_iv :: bytes

text \<open>The loop \<open>for user in USERS\<close> (lines 106-130); \<open>return False\<close> is \<open>Inr None\<close>.\<close>

fun handshake_users ::
  "block_fn \<Rightarrow> hash_fn \<Rightarrow> bytes \<Rightarrow> (string \<times> string) list \<Rightarrow> exc + clt_data option" where
  "handshake_users E H handshake [] = Inr None"
| "handshake_users E H handshake ((usr, hexsecret) # rest) =
     (case fromhex hexsecret of
        None \<Rightarrow> Inl ValueError
      | Some secret \<Rightarrow>
          let dec_prekey_and_iv = slice SKIP_LEN (SKIP_LEN + PREKEY_LEN + IV_LEN) handshake;
              dec_prekey = take PREKEY_LEN dec_prekey_and_iv;
              dec_iv = drop PREKEY_LEN dec_prekey_and_iv;
              dec_key = sha256 H (dec_prekey @ secret)
          in case create_aes dec_key (from_bytes_big dec_iv) of
               Inl e \<Rightarrow> Inl e
             | Inr decryptor \<Rightarrow>
                 let enc_prekey_and_iv =
                       rev (slice SKIP_LEN (SKIP_LEN + PREKEY_LEN + IV_LEN) handshake);
                     enc_prekey = take PREKEY_LEN enc_prekey_and_iv;
                     enc_iv = drop PREKEY_LEN enc_prekey_and_iv;
                     enc_key = sha256 H (enc_prekey @ secret)
                 in case create_aes enc_key (from_bytes_big enc_iv) of
                      Inl e \<Rightarrow> Inl e
                    | Inr encryptor \<Rightarrow>
                        let (decrypted, decryptor') = aes_decrypt E decryptor handshake;
                            check_val = slice MAGIC_VAL_POS (MAGIC_VAL_POS + 4) decrypted
                        in if check_val \<noteq> MAGIC_VAL_TO_CHECK
                           then handshake_users E H handshake rest
                           else Inr (Some \<lparr>clt_reader = Ctr decryptor',
                                           clt_writer = Ctr encryptor,
                                           clt_user = usr,
                                           clt_dc_idx =
                                             \<bar>from_bytes_little_signed (slice 60 62 decrypted)\<bar> - 1,
                                           clt_enc_key_and_iv = enc_key @ enc_iv\<rparr>))"

definition handle_handshake ::
  "block_fn \<Rightarrow> hash_fn \<Rightarrow> (string \<times> string) list \<Rightarrow> stream_reader \<Rightarrow> exc + clt_data option" where
  "handle_handshake E H users reader =
     (case readexactly HANDSHAKE_LEN reader of
        Inl e \<Rightarrow> Inl e
      | Inr handshake \<Rightarrow> handshake_users E H handshake users)"

text \<open>
  The trial decryption in the words of the specification: the whole preamble decrypted
  under the key \<open>SHA-256(preamble[8..40] || secret)\<close> with the counter starting at
  \<open>preamble[40..56]\<close> read big-endian.
\<close>

definition trial_decryption :: "block_fn \<Rightarrow> hash_fn \<Rightarrow> bytes \<Rightarrow> bytes \<Rightarrow> bytes" where
  "trial_decryption E H preamble secret =
     fst (aes_decrypt E
            \<lparr>aes_key = sha256 H (slice 8 40 preamble @ secret),
             counter = word_of_int (from_bytes_big (slice 40 56 preamble)),
             remaining_counter = []\<rparr> preamble)"

text \<open>A user matches when the trial decryption shows the magic at bytes 56..60.\<close>

definition magic_ok :: "block_fn \<Rightarrow> hash_fn \<Rightarrow> bytes \<Rightarrow> bytes \<Rightarrow> bool" where
  "magic_ok E H preamble secret =
     (slice 56 60 (trial_decryption E H preamble secret) = [0xEF, 0xEF, 0xEF, 0xEF])"

text \<open>
  What the specification says \<open>handle_handshake\<close> returns for the user \<open>u\<close> with the
  secret \<open>s\<close> on the preamble \<open>hs\<close>: the reader's decryptor is the trial decryptor four
  blocks on, the writer's encryptor is keyed from the reversed bytes 8..56, and the key
  material is that encryptor's key and IV.
\<close>

definition accepted :: "block_fn \<Rightarrow> hash_fn \<Rightarrow> bytes \<Rightarrow> string \<Rightarrow> bytes \<Rightarrow> clt_data" where
  "accepted E H hs u s =
     \<lparr>clt_reader = Ctr \<lparr>aes_key = sha256 H (slice 8 40 hs @ s),
                        counter = word_of_int (from_bytes_big (slice 40 56 hs)) + 4,
                        remaining_counter = []\<rparr>,
      clt_writer = Ctr \<lparr>aes_key = sha256 H (take 32 (rev (slice 8 56 hs)) @ s),
                        counter = word_of_int (from_bytes_big (drop 32 (rev (slice 8 56 hs)))),
                        remaining_counter = []\<rparr>,
      clt_user = u,
      clt_dc_idx = \<bar>from_bytes_little_signed (slice 60 62 (trial_decryption E H hs s))\<bar> - 1,
      clt_enc_key_and_iv =
        sha256 H (take 32 (rev (slice 8 56 hs)) @ s) @ drop 32 (rev (slice 8 56 hs))\<rparr>"

section \<open>\<open>do_direct_handshake\<close>\<close>

definition RESERVED_NONCE_FIRST_CHARS :: "bytes list" where
  "RESERVED_NONCE_FIRST_CHARS = [[0xEF]]"

definition RESERVED_NONCE_BEGININGS :: "bytes list" where
  "RESERVED_NONCE_BEGININGS =
     [[0x48, 0x45, 0x41, 0x44], [0x50, 0x4F, 0x53, 0x54],
      [0x47, 0x45, 0x54, 0x20], [0xEE, 0xEE, 0xEE, 0xEE]]"

definition RESERVED_NONCE_CONTINUES :: "bytes list" where
  "RESERVED_NONCE_CONTINUES = [[0x00, 0x00, 0x00, 0x00]]"

text \<open>The bounds check and the choice of the address (lines 139-146).\<close>

definition choose_dc :: "bool \<Rightarrow> int \<Rightarrow> string option" where
  "choose_dc prefer_ipv6 dc_idx =
     (if prefer_ipv6
      then (if \<not> (0 \<le> dc_idx \<and> dc_idx < int (length TG_DATACENTERS_V6)) then None
            else Some (TG_DATACENTERS_V6 ! nat dc_idx))
      else (if \<not> (0 \<le> dc_idx \<and> dc_idx < int (length TG_DATACENTERS_V4)) then None
            else Some (TG_DATACENTERS_V4 ! nat dc_idx)))"

text \<open>The three \<open>continue\<close> tests of the sampling loop (lines 157-162).\<close>

definition rejected :: "bytes \<Rightarrow> bool" where
  "rejected rnd =
     (take 1 rnd \<in> set RESERVED_NONCE_FIRST_CHARS
      \<or> take 4 rnd \<in> set RESERVED_NONCE_BEGININGS
      \<or> slice 4 8 rnd \<in> set RESERVED_NONCE_CONTINUES)"

text \<open>
  The loop \<open>while True\<close> (lines 155-163). Its argument is the sequence of values that
  \<open>random.randrange(0, 256)\<close> returns, 64 of them for each turn; \<open>None\<close> says that the
  loop has not settled on a preamble when these values are used up.
\<close>

function sample_rnd :: "bytes \<Rightarrow> bytes option" where
  "sample_rnd draws =
     (if length draws < HANDSHAKE_LEN then None
      else let rnd = take HANDSHAKE_LEN draws
           in if rejected rnd then sample_rnd (drop HANDSHAKE_LEN draws) else Some rnd)"
  by pat_completeness auto
termination
  by (relation "measure length") (auto simp: HANDSHAKE_LEN_def)

declare sample_rnd.simps [simp del]

text \<open>A slice assignment \<open>b[i:j] = v\<close> on a \<open>bytearray\<close>, for \<open>i \<le> j\<close>.\<close>

definition set_slice :: "nat \<Rightarrow> nat \<Rightarrow> 'a list \<Rightarrow> 'a list \<Rightarrow> 'a list" where
  "set_slice i j v b = take i b @ v @ drop j b"

text \<open>
  Lines 165-170: the preamble once the loop has settled on \<open>rnd\<close>. The test
  \<open>if dec_key_and_iv\<close> holds for a non-empty byte string.
\<close>

definition settle_rnd :: "bytes option \<Rightarrow> bytes \<Rightarrow> bytes" where
  "settle_rnd dec_key_and_iv rnd0 =
     (let rnd = set_slice MAGIC_VAL_POS (MAGIC_VAL_POS + 4) MAGIC_VAL_TO_CHECK rnd0
      in case dec_key_and_iv of
           None \<Rightarrow> rnd
         | Some k \<Rightarrow>
             if k \<noteq> [] then set_slice SKIP_LEN (SKIP_LEN + KEY_LEN + IV_LEN) (rev k) rnd
             else rnd)"

record tg_data =
  tg_reader :: cipher
  tg_writer :: cipher

text \<open>
  \<open>do_direct_handshake\<close>. Besides its two arguments it is given what its surroundings
  do: \<open>connect\<close> is the exception that \<open>asyncio.open_connection\<close> raises, if any,
  \<open>draws\<close> the random values, \<open>drain\<close> the exception that \<open>writer_tgt.drain()\<close> raises,
  if any. It yields the calls made on the connections and the result: \<open>None\<close> when the
  sampling loop has not settled, \<open>Some (Inl e)\<close> when \<open>e\<close> is raised,
  \<open>Some (Inr None)\<close> for \<open>return False\<close>, and the two wrappers otherwise.
\<close>

definition do_direct_handshake ::
  "block_fn \<Rightarrow> bool \<Rightarrow> int \<Rightarrow> bytes option \<Rightarrow> exc option \<Rightarrow> bytes \<Rightarrow> exc option
     \<Rightarrow> (exc + tg_data option) option \<times> action list" where
  "do_direct_handshake E prefer_ipv6 dc_idx dec_key_and_iv connect draws drain =
     (case choose_dc prefer_ipv6 dc_idx of
        None \<Rightarrow> (Some (Inr None), [])
      | Some dc \<Rightarrow>
          let opened = [OpenConnection dc TG_DATACENTER_PORT] in
          case connect of
            Some e \<Rightarrow> (if is_OSError e then (Some (Inr None), opened) else (Some (Inl e), opened))
          | None \<Rightarrow>
              (case sample_rnd draws of
                 None \<Rightarrow> (None, opened)
               | Some rnd0 \<Rightarrow>
                   let rnd = settle_rnd dec_key_and_iv rnd0;
                       dec_key_and_iv = rev (slice SKIP_LEN (SKIP_LEN + KEY_LEN + IV_LEN) rnd);
                       dec_key = take KEY_LEN dec_key_and_iv;
                       dec_iv = drop KEY_LEN dec_key_and_iv
                   in case create_aes dec_key (from_bytes_big dec_iv) of
                        Inl e \<Rightarrow> (Some (Inl e), opened)
                      | Inr decryptor \<Rightarrow>
                          let enc_key_and_iv = slice SKIP_LEN (SKIP_LEN + KEY_LEN + IV_LEN) rnd;
                              enc_key = take KEY_LEN enc_key_and_iv;
                              enc_iv = drop KEY_LEN enc_key_and_iv
                          in case create_aes enc_key (from_bytes_big enc_iv) of
                               Inl e \<Rightarrow> (Some (Inl e), opened)
                             | Inr encryptor \<Rightarrow>
                                 let (encrypted, encryptor') = aes_encrypt E encryptor rnd;
                                     rnd_enc = take MAGIC_VAL_POS rnd @ drop MAGIC_VAL_POS encrypted;
                                     acts = opened @ [Write Telegram rnd_enc, Drain Telegram]
                                 in case drain of
                                      Some e \<Rightarrow> (Some (Inl e), acts)
                                    | None \<Rightarrow>
                                        (Some (Inr (Some \<lparr>tg_reader = Ctr decryptor,
                                                          tg_writer = Ctr encryptor'\<rparr>)),
                                         acts)))"

section \<open>The pumps: \<open>connect_reader_to_writer\<close>\<close>

text \<open>
  A pump is a coroutine: it is scheduled by \<open>asyncio.ensure_future\<close>, runs to its first
  \<open>await\<close> when the reactor starts it, and is resumed whenever its read completes. Its
  state is where it stands (\<open>NotStarted\<close>, inside the loop, or left, with the exception
  that left it if one did), the cipher slots of its reader and of its writer, the
  connection it writes to, and its user.
\<close>

datatype pc = NotStarted | InLoop | Exited "exc option"

record pump =
  pc :: pc
  rd :: cipher
  wr :: cipher
  dst :: peer
  pump_user :: string

text \<open>
  What resumes a pump: \<open>Start\<close> runs it from its entry to the first read;
  \<open>ReadRaises e\<close> is a read of the underlying stream that raises \<open>e\<close>;
  \<open>ReadReturns buf w d\<close> is a read of the underlying stream that returns \<open>buf\<close> (empty
  at the end of the stream), followed in this turn of the loop by a \<open>write\<close> or
  \<open>write_eof\<close> that raises \<open>w\<close>, if any, and a \<open>drain\<close> that raises \<open>d\<close>, if any.
\<close>

datatype event = Start | ReadRaises exc | ReadReturns bytes "exc option" "exc option"

text \<open>The classes of the \<open>except\<close> clause (lines 241-242).\<close>

definition pump_catches :: "exc \<Rightarrow> bool" where
  "pump_catches e = (is_OSError e \<or> e = AttributeError)"

text \<open>Leaving the \<open>try\<close> statement: the \<open>except\<close> clause, then the \<open>finally\<close> clause.\<close>

definition pump_exit ::
  "exc option \<Rightarrow> pump \<Rightarrow> stats \<Rightarrow> action list \<Rightarrow> pump \<times> stats \<times> action list" where
  "pump_exit raised p st acts =
     (let st' = update_stats (pump_user p) 0 (- 1) 0 st
      in case raised of
           None \<Rightarrow> (p\<lparr>pc := Exited None\<rparr>, st', acts)
         | Some e \<Rightarrow>
             if pump_catches e then (p\<lparr>pc := Exited None\<rparr>, st', acts @ [Close (dst p)])
             else (p\<lparr>pc := Exited (Some e)\<rparr>, st', acts))"

text \<open>\<open>CryptoWrappedStreamReader.read\<close>: the underlying read's bytes, decrypted.\<close>

definition wrapped_read :: "block_fn \<Rightarrow> cipher \<Rightarrow> bytes \<Rightarrow> bytes \<times> cipher" where
  "wrapped_read E decryptor buf = decrypt E decryptor buf"

fun pump_step ::
  "block_fn \<Rightarrow> event \<Rightarrow> pump \<times> stats \<times> action list \<Rightarrow> pump \<times> stats \<times> action list" where
  "pump_step E ev (p, st, acts) =
     (case pc p of
        NotStarted \<Rightarrow>
          (case ev of
             Start \<Rightarrow> (p\<lparr>pc := InLoop\<rparr>, update_stats (pump_user p) 0 1 0 st, acts)
           | _ \<Rightarrow> (p, st, acts))
      | Exited x \<Rightarrow> (p, st, acts)
      | InLoop \<Rightarrow>
          (case ev of
             Start \<Rightarrow> (p, st, acts)
           | ReadRaises e \<Rightarrow> pump_exit (Some e) p st acts
           | ReadReturns buf w d \<Rightarrow>
               let (data, rd') = wrapped_read E (rd p) buf;
                   p1 = p\<lparr>rd := rd'\<rparr>
               in if data = []
                  then (case w of
                          Some e \<Rightarrow> pump_exit (Some e) p1 st (acts @ [WriteEof (dst p)])
                        | None \<Rightarrow>
                            (case d of
                               Some e \<Rightarrow>
                                 pump_exit (Some e) p1 st (acts @ [WriteEof (dst p), Drain (dst p)])
                             | None \<Rightarrow>
                                 pump_exit None p1 st
                                   (acts @ [WriteEof (dst p), Drain (dst p), Close (dst p)])))
                  else let st1 = update_stats (pump_user p) 0 0 (int (length data)) st;
                           (out, wr') = encrypt E (wr p) data;
                           p2 = p1\<lparr>wr := wr'\<rparr>
                       in (case w of
                             Some e \<Rightarrow> pump_exit (Some e) p2 st1 (acts @ [Write (dst p) out])
                           | None \<Rightarrow>
                               (case d of
                                  Some e \<Rightarrow>
                                    pump_exit (Some e) p2 st1
                                      (acts @ [Write (dst p) out, Drain (dst p)])
                                | None \<Rightarrow> (p2, st1, acts @ [Write (dst p) out, Drain (dst p)])))))"

text \<open>One pump resumed by a sequence of events.\<close>

fun run_pump ::
  "block_fn \<Rightarrow> event list \<Rightarrow> pump \<times> stats \<times> action list \<Rightarrow> pump \<times> stats \<times> action list" where
  "run_pump E [] s = s"
| "run_pump E (ev # evs) s = run_pump E evs (pump_step E ev s)"

text \<open>
  The two pumps of a connection share the registry. A schedule says, step by step, which
  pump the reactor resumes (\<open>True\<close>: the pump towards the client) and by which event.
\<close>

fun run_pumps ::
  "block_fn \<Rightarrow> (bool \<times> event) list \<Rightarrow> pump \<times> pump \<times> stats \<times> action list
     \<Rightarrow> pump \<times> pump \<times> stats \<times> action list" where
  "run_pumps E [] s = s"
| "run_pumps E ((to_client, ev) # sched) (pa, pb, st, acts) =
     (if to_client
      then (case pump_step E ev (pa, st, acts) of
              (pa', st', acts') \<Rightarrow> run_pumps E sched (pa', pb, st', acts'))
      else (case pump_step E ev (pb, st, acts) of
              (pb', st', acts') \<Rightarrow> run_pumps E sched (pa, pb', st', acts')))"

definition alive :: "pump \<Rightarrow> int" where
  "alive p = (if pc p = InLoop then 1 else 0)"

section \<open>\<open>handle_client\<close> and \<open>handle_client_wrapper\<close>\<close>

text \<open>What surrounds one connection: the client's stream and the three answers that
  \<open>do_direct_handshake\<close> is given.\<close>

record env =
  env_client :: stream_reader
  env_connect :: "exc option"
  env_draws :: bytes
  env_drain :: "exc option"

text \<open>
  \<open>handle_client\<close> up to the scheduling of the two pumps. The result is \<open>None\<close> when the
  sampling loop has not settled, \<open>Some (Inl e)\<close> when \<open>e\<close> is raised,
  \<open>Some (Inr None)\<close> when it returns after closing the client, and the two scheduled pumps
  (first the one towards the client) otherwise. \<open>do_middleproxy_handshake\<close> is not
  defined anywhere: calling it would raise \<open>NameError\<close>.
\<close>

definition handle_client ::
  "block_fn \<Rightarrow> hash_fn \<Rightarrow> config \<Rightarrow> env \<Rightarrow> stats
     \<Rightarrow> (exc + (pump \<times> pump) option) option \<times> stats \<times> action list" where
  "handle_client E H cfg env st =
     (let rd_act = [ReadExactly HANDSHAKE_LEN] in
      case handle_handshake E H (USERS cfg) (env_client env) of
        Inl e \<Rightarrow> (Some (Inl e), st, rd_act)
      | Inr None \<Rightarrow> (Some (Inr None), st, rd_act @ [Close Client])
      | Inr (Some clt) \<Rightarrow>
          let st1 = update_stats (clt_user clt) 1 0 0 st in
          if USE_MIDDLE_PROXY then (Some (Inl NameError), st1, rd_act)
          else
            let (tg, acts) =
                  (if FAST_MODE cfg
                   then do_direct_handshake E (PREFER_IPV6 cfg) (clt_dc_idx clt)
                          (Some (clt_enc_key_and_iv clt)) (env_connect env) (env_draws env) (env_drain env)
                   else do_direct_handshake E (PREFER_IPV6 cfg) (clt_dc_idx clt)
                          None (env_connect env) (env_draws env) (env_drain env))
            in case tg of
                 None \<Rightarrow> (None, st1, rd_act @ acts)
               | Some (Inl e) \<Rightarrow> (Some (Inl e), st1, rd_act @ acts)
               | Some (Inr None) \<Rightarrow> (Some (Inr None), st1, rd_act @ acts @ [Close Client])
               | Some (Inr (Some tgd)) \<Rightarrow>
                   let fast = (\<not> USE_MIDDLE_PROXY \<and> FAST_MODE cfg);
                       reader_tg_decryptor = (if fast then Fake else tg_reader tgd);
                       writer_clt_encryptor = (if fast then Fake else clt_writer clt)
                   in (Some (Inr (Some
                         (\<lparr>pc = NotStarted, rd = reader_tg_decryptor, wr = writer_clt_encryptor,
                           dst = Client, pump_user = clt_user clt\<rparr>,
                          \<lparr>pc = NotStarted, rd = clt_reader clt, wr = tg_writer tgd,
                           dst = Telegram, pump_user = clt_user clt\<rparr>))),
                       st1, rd_act @ acts))"

text \<open>The \<open>except\<close> clause of \<open>handle_client_wrapper\<close> names two classes (line 255).\<close>

definition wrapper_catches :: "exc \<Rightarrow> bool" where
  "wrapper_catches e = (e = IncompleteReadError \<or> e = ConnectionResetError)"

definition handle_client_wrapper ::
  "block_fn \<Rightarrow> hash_fn \<Rightarrow> config \<Rightarrow> env \<Rightarrow> stats
     \<Rightarrow> (exc + (pump \<times> pump) option) option \<times> stats \<times> action list" where
  "handle_client_wrapper E H cfg env st =
     (case handle_client E H cfg env st of
        (Some (Inl e), st', acts) \<Rightarrow>
          if wrapper_catches e then (Some (Inr None), st', acts @ [Close Client])
          else (Some (Inl e), st', acts)
      | r \<Rightarrow> r)"

section \<open>A block function and a hash for evaluating the model\<close>

text \<open>
  The theorems below hold for every block function and every hash. To evaluate the model
  on concrete inputs, two simple functions stand for them.
\<close>

definition toy_E :: block_fn where
  "toy_E k c = (c + word_of_int (from_bytes_big k)) * 0x01010101010101010101010101010101"

definition toy_H :: hash_fn where
  "toy_H m = word_of_int (from_bytes_big m)"

text \<open>
  A user table and a client preamble for them: under these two functions the preamble
  decrypts to the magic and to the datacenter field 1 for the secret of \<open>bob\<close>, and
  not to the magic for the secret of \<open>alice\<close>.
\<close>

definition demo_users :: "(string \<times> string) list" where
  "demo_users = [(''alice'', ''00000000000000000000000000000001''),
                 (''bob'', ''00000000000000000000000000000002'')]"

definition demo_secret :: bytes where
  "demo_secret = [0, 0, 0, 0, 0, 0, 0, 0, 0, 0, 0, 0, 0, 0, 0, 2]"

definition demo_preamble :: bytes where
  "demo_preamble = replicate 56 0 @ [0xEA, 0xEA, 0xEA, 0xEA, 4, 5, 0, 0]"

text \<open>
  Random values whose first 64 begin with \<open>GET \<close> and whose next 64 are acceptable;
  the key material and the upstream wrappers that belong to the preamble above; a preamble
  whose datacenter field decrypts to 0; a configuration and the surroundings of a
  connection.
\<close>

definition demo_draws :: bytes where
  "demo_draws = [0x47, 0x45, 0x54, 0x20] @ replicate 60 9 @ replicate 64 1"

definition demo_key_material :: bytes where
  "demo_key_material = replicate 31 0 @ [2] @ replicate 16 0"

definition demo_tg :: tg_data where
  "demo_tg =
     \<lparr>tg_reader = Ctr \<lparr>aes_key = replicate 31 0 @ [2], counter = 0, remaining_counter = []\<rparr>,
      tg_writer = Ctr \<lparr>aes_key = replicate 16 0 @ [2] @ replicate 15 0, counter = 4,
                        remaining_counter = []\<rparr>\<rparr>"

definition demo_preamble_dc0 :: bytes where
  "demo_preamble_dc0 = replicate 56 0 @ [0xEA, 0xEA, 0xEA, 0xEA, 5, 5, 0, 0]"

definition demo_cfg :: config where
  "demo_cfg = \<lparr>USERS = demo_users, PREFER_IPV6 = False, FAST_MODE = True\<rparr>"

definition demo_env :: "stream_reader \<Rightarrow> exc option \<Rightarrow> env" where
  "demo_env client drain_exc =
     \<lparr>env_client = client, env_connect = None, env_draws = demo_draws, env_drain = drain_exc\<rparr>"

section \<open>The keystream of a cipher object\<close>

text \<open>
  The keystream byte that a cipher object in state \<open>c\<close> will use \<open>i\<close> bytes from now:
  first the bytes kept from the last block, then the blocks of the following counter
  values.
\<close>

definition kbyte :: "block_fn \<Rightarrow> aes_ctr \<Rightarrow> nat \<Rightarrow> byte" where
  "kbyte E c i =
     (let r = remaining_counter c in
      if i < length r then r ! i
      else block_bytes (E (aes_key c) (counter c + of_nat ((i - length r) div 16)))
             ! ((i - length r) mod 16))"

text \<open>
  The AES-CTR keystream of a key and an IV in the words of the specification: its byte
  \<open>i\<close> is byte \<open>i mod 16\<close> of the block that the block function gives for the
  counter value \<open>iv + i div 16\<close>.
\<close>

definition ctr_keystream :: "block_fn \<Rightarrow> bytes \<Rightarrow> 128 word \<Rightarrow> nat \<Rightarrow> byte" where
  "ctr_keystream E k iv i = block_bytes (E k (iv + of_nat (i div 16))) ! (i mod 16)"

definition xor_from :: "block_fn \<Rightarrow> aes_ctr \<Rightarrow> nat \<Rightarrow> bytes \<Rightarrow> bytes" where
  "xor_from E c off x = map (\<lambda>i. x ! i XOR kbyte E c (off + i)) [0..<length x]"

section \<open>A pump and its fast-mode twin\<close>

text \<open>
  Two pumps that stand at the same place, for the same user and towards the same
  connection, one with the two identity transforms and one whose reader and writer hold
  cipher objects in the same state.
\<close>

definition fast_twin :: "pump \<Rightarrow> pump \<Rightarrow> bool" where
  "fast_twin p q =
     (pc q = pc p \<and> dst q = dst p \<and> pump_user q = pump_user p \<and> rd q = Fake \<and> wr q = Fake
      \<and> (\<exists>c. rd p = Ctr c \<and> wr p = Ctr c))"

section \<open>Properties of the CTR cipher object\<close>

lemma length_block_bytes [simp]: "length (block_bytes w) = 16"
  by (simp add: block_bytes_def)

lemma kbyte_step:
  "kbyte E (c\<lparr>remaining_counter := remaining_counter c @ block_bytes (E (aes_key c) (counter c)),
              counter := counter c + 1\<rparr>) i = kbyte E c i"
proof -
  let ?r = "remaining_counter c"
  consider "i < length ?r" | "length ?r \<le> i" "i < length ?r + 16" | "length ?r + 16 \<le> i"
    by linarith
  then show ?thesis
  proof cases
    case 1
    then show ?thesis by (simp add: kbyte_def nth_append)
  next
    case 2
    then have "(i - length ?r) div 16 = 0" "(i - length ?r) mod 16 = i - length ?r" by auto
    with 2 show ?thesis by (simp add: kbyte_def nth_append)
  next
    case 3
    then obtain j where j: "i = length ?r + 16 + j" using le_Suc_ex by blast
    have "(16 + j) div 16 = Suc (j div 16)" "(16 + j) mod 16 = j mod 16" by auto
    with j show ?thesis by (simp add: kbyte_def nth_append add.assoc)
  qed
qed

lemma refill_key [simp]: "aes_key (refill E c n) = aes_key c"
  by (induction E c n rule: refill.induct) (subst refill.simps, simp)

lemma refill_length: "n \<le> length (remaining_counter (refill E c n))"
  by (induction E c n rule: refill.induct) (subst refill.simps, simp)

lemma refill_kbyte [simp]: "kbyte E (refill E c n) i = kbyte E c i"
  by (induction E c n rule: refill.induct) (subst refill.simps, simp add: kbyte_step)

lemma blocks_needed_step:
  assumes "r < n"
  shows "(n - r + 15) div 16 = Suc ((n - (r + 16) + 15) div (16::nat))"
proof (cases "r + 16 \<le> n")
  case True
  then obtain j where j: "n = r + 16 + j" using le_Suc_ex by blast
  have "(16 + j + 15) div 16 = Suc ((j + 15) div (16::nat))"
    by (simp add: add.assoc)
  with j show ?thesis by (simp add: add.commute add.left_commute)
next
  case False
  with assms have a: "n - r + 15 < 32" "16 \<le> n - r + 15" "n - (r + 16) = 0" by auto
  from a(1,2) have "(n - r + 15) div 16 = 1"
    by (simp add: div_nat_eqI)
  with a(3) show ?thesis by simp
qed

lemma refill_counter:
  "counter (refill E c n) = counter c + of_nat ((n - length (remaining_counter c) + 15) div 16)"
proof (induction E c n rule: refill.induct)
  case (1 E c n)
  show ?case
  proof (cases "length (remaining_counter c) < n")
    case True
    from 1 [OF True] blocks_needed_step [OF True] True show ?thesis
      by (subst refill.simps) (simp add: add.assoc)
  next
    case False
    then show ?thesis by (subst refill.simps) simp
  qed
qed

lemma aes_encrypt_out: "fst (aes_encrypt E c x) = xor_from E c 0 x"
proof -
  let ?c = "refill E c (length x)"
  have len: "length x \<le> length (remaining_counter ?c)" by (rule refill_length)
  have "\<And>i. i < length x \<Longrightarrow> remaining_counter ?c ! i = kbyte E c i"
  proof -
    fix i assume "i < length x"
    with len have "kbyte E ?c i = remaining_counter ?c ! i" by (simp add: kbyte_def)
    then show "remaining_counter ?c ! i = kbyte E c i" by simp
  qed
  with len show ?thesis
    by (auto simp: aes_encrypt_def xor_from_def Let_def intro!: nth_equalityI)
qed

lemma aes_encrypt_kbyte: "kbyte E (snd (aes_encrypt E c x)) i = kbyte E c (length x + i)"
proof -
  let ?c = "refill E c (length x)"
  have len: "length x \<le> length (remaining_counter ?c)" by (rule refill_length)
  have "kbyte E (snd (aes_encrypt E c x)) i = kbyte E ?c (length x + i)"
    using len by (auto simp: aes_encrypt_def Let_def kbyte_def add.commute)
  then show ?thesis by simp
qed

lemma aes_encrypt_length [simp]: "length (fst (aes_encrypt E c x)) = length x"
  by (simp add: aes_encrypt_out xor_from_def)

lemma xor_from_append:
  "xor_from E c off (a @ b) = xor_from E c off a @ xor_from E c (off + length a) b"
  by (auto simp: xor_from_def nth_append add.assoc intro!: nth_equalityI)

lemma xor_from_shift:
  "(\<And>i. kbyte E c' i = kbyte E c (off + i)) \<Longrightarrow> xor_from E c' 0 x = xor_from E c off x"
  by (simp add: xor_from_def)

lemma encrypt_chunks_concat:
  "(\<And>i. kbyte E c i = kbyte E c0 (off + i)) \<Longrightarrow>
   concat (fst (encrypt_chunks E c xs)) = xor_from E c0 off (concat xs)"
proof (induction xs arbitrary: c off)
  case Nil
  then show ?case by (simp add: xor_from_def)
next
  case (Cons x xs)
  have "\<And>i. kbyte E (snd (aes_encrypt E c x)) i = kbyte E c0 (off + length x + i)"
    by (simp add: aes_encrypt_kbyte Cons.prems add.assoc)
  from Cons.IH [OF this] Cons.prems show ?case
    by (simp add: split_beta Let_def aes_encrypt_out xor_from_append xor_from_shift)
qed

lemma decrypt_chunks_eq: "decrypt_chunks E c xs = encrypt_chunks E c xs"
  by (induction xs arbitrary: c) (simp_all add: aes_decrypt_def)

lemma concat_split_chunks [simp]: "concat (split_chunks ns x) = x"
  by (induction ns arbitrary: x) simp_all

lemma xor_from_twice: "xor_from E c off (xor_from E c off x) = x"
  by (auto simp: xor_from_def xor.assoc intro!: nth_equalityI)

lemma roundtrip:
  "concat (fst (decrypt_chunks E c (split_chunks ms (concat (fst (encrypt_chunks E c (split_chunks ns x))))))) = x"
proof -
  have e: "\<And>xs. concat (fst (encrypt_chunks E c xs)) = xor_from E c 0 (concat xs)"
    by (rule encrypt_chunks_concat) simp
  show ?thesis
    unfolding decrypt_chunks_eq e concat_split_chunks by (rule xor_from_twice)
qed


lemma refill_remaining_length:
  "length (remaining_counter (refill E c n)) =
     length (remaining_counter c) + 16 * ((n - length (remaining_counter c) + 15) div 16)"
proof (induction E c n rule: refill.induct)
  case (1 E c n)
  show ?case
  proof (cases "length (remaining_counter c) < n")
    case True
    from 1 [OF True] blocks_needed_step [OF True] True show ?thesis
      by (subst refill.simps) (simp add: add.assoc)
  next
    case False
    then show ?thesis by (subst refill.simps) simp
  qed
qed

lemma aes_encrypt_counter:
  "counter (snd (aes_encrypt E c y)) =
     counter c + of_nat ((length y - length (remaining_counter c) + 15) div 16)"
  by (simp add: aes_encrypt_def Let_def refill_counter)

lemma aes_encrypt_key [simp]: "aes_key (snd (aes_encrypt E c y)) = aes_key c"
  by (simp add: aes_encrypt_def Let_def)

lemma aes_encrypt_remaining_length:
  "length (remaining_counter (snd (aes_encrypt E c y))) =
     length (remaining_counter c) + 16 * ((length y - length (remaining_counter c) + 15) div 16)
       - length y"
  by (simp add: aes_encrypt_def Let_def refill_remaining_length)

lemma aes_encrypt_empty [simp]: "aes_encrypt E c [] = ([], c)"
  by (subst aes_encrypt_def, subst refill.simps) simp

lemma length_sha256 [simp]: "length (sha256 H m) = 32"
  by (simp add: sha256_def)

lemma create_aes_digest:
  "create_aes (sha256 H m) iv =
     Inr \<lparr>aes_key = sha256 H m, counter = word_of_int iv, remaining_counter = []\<rparr>"
  by (simp add: create_aes_def)

lemma kbyte_fresh:
  "remaining_counter c = [] \<Longrightarrow> kbyte E c i = ctr_keystream E (aes_key c) (counter c) i"
  by (simp add: kbyte_def ctr_keystream_def)

lemma encrypt_chunks_keystream:
  assumes "remaining_counter c = []"
  shows "concat (fst (encrypt_chunks E c xs)) =
           map (\<lambda>i. concat xs ! i XOR ctr_keystream E (aes_key c) (counter c) i)
             [0..<length (concat xs)]"
proof -
  have "concat (fst (encrypt_chunks E c xs)) = xor_from E c 0 (concat xs)"
    by (rule encrypt_chunks_concat) simp
  with assms show ?thesis by (simp add: xor_from_def kbyte_fresh)
qed

lemma aes_encrypt_xor:
  "fst (aes_encrypt E c y) = map (\<lambda>i. y ! i XOR kbyte E c i) [0..<length y]"
  by (simp add: aes_encrypt_out xor_from_def)

text \<open>
  Claim C8, as amended. For every prekey, secret and IV, \<open>create_aes\<close> on the key
  \<open>SHA-256(prekey || secret)\<close> and the big-endian IV returns a cipher object. However a
  byte string \<open>x\<close> is split into successive chunks, on block boundaries or not, the
  outputs of its encrypting calls, put together, are \<open>x\<close> XORed byte by byte with the
  AES-CTR keystream of that key and IV, and so are the outputs of its decrypting calls;
  hence decrypting, in any chunks \<open>ms\<close>, what was encrypted, in any chunks \<open>ns\<close>,
  gives \<open>x\<close> back. In any state, a call XORs its chunk \<open>y\<close> with the keystream from
  the current position, encrypting and decrypting alike, and leaves the object
  \<open>len(y)\<close> keystream bytes further on. It advances the counter by the number of new
  keystream blocks it needs, \<open>ceil(max(0, len(y) - r) / 16)\<close>, where \<open>r\<close> is the number
  of keystream bytes kept from the previous block; when \<open>r = 0\<close> this is
  \<open>ceil(len(y) / 16)\<close>.
\<close>

theorem ctr_roundtrip_chunked:
  "(\<exists>c0. create_aes (sha256 H (prekey @ secret)) (from_bytes_big iv) = Inr c0 \<and>
      concat (fst (encrypt_chunks E c0 (split_chunks ns x))) =
        map (\<lambda>i. x ! i XOR
               ctr_keystream E (sha256 H (prekey @ secret)) (word_of_int (from_bytes_big iv)) i)
          [0..<length x] \<and>
      concat (fst (decrypt_chunks E c0 (split_chunks ms x))) =
        map (\<lambda>i. x ! i XOR
               ctr_keystream E (sha256 H (prekey @ secret)) (word_of_int (from_bytes_big iv)) i)
          [0..<length x] \<and>
      concat (fst (decrypt_chunks E c0
        (split_chunks ms (concat (fst (encrypt_chunks E c0 (split_chunks ns x))))))) = x) \<and>
   fst (aes_encrypt E c y) = map (\<lambda>i. y ! i XOR kbyte E c i) [0..<length y] \<and>
   fst (aes_decrypt E c y) = map (\<lambda>i. y ! i XOR kbyte E c i) [0..<length y] \<and>
   snd (aes_decrypt E c y) = snd (aes_encrypt E c y) \<and>
   kbyte E (snd (aes_encrypt E c y)) j = kbyte E c (length y + j) \<and>
   counter (snd (aes_encrypt E c y)) =
     counter c + of_nat ((length y - length (remaining_counter c) + 15) div 16) \<and>
   counter (snd (aes_encrypt E (c\<lparr>remaining_counter := []\<rparr>) y)) =
     counter c + of_nat ((length y + 15) div 16)"
proof (intro conjI)
  let ?c0 = "\<lparr>aes_key = sha256 H (prekey @ secret), counter = word_of_int (from_bytes_big iv),
              remaining_counter = []\<rparr>"
  have e: "\<And>xs. concat (fst (encrypt_chunks E ?c0 xs)) =
      map (\<lambda>i. concat xs ! i XOR
             ctr_keystream E (sha256 H (prekey @ secret)) (word_of_int (from_bytes_big iv)) i)
        [0..<length (concat xs)]"
    using encrypt_chunks_keystream [of ?c0 E] by simp
  show "\<exists>c0. create_aes (sha256 H (prekey @ secret)) (from_bytes_big iv) = Inr c0 \<and>
      concat (fst (encrypt_chunks E c0 (split_chunks ns x))) =
        map (\<lambda>i. x ! i XOR
               ctr_keystream E (sha256 H (prekey @ secret)) (word_of_int (from_bytes_big iv)) i)
          [0..<length x] \<and>
      concat (fst (decrypt_chunks E c0 (split_chunks ms x))) =
        map (\<lambda>i. x ! i XOR
               ctr_keystream E (sha256 H (prekey @ secret)) (word_of_int (from_bytes_big iv)) i)
          [0..<length x] \<and>
      concat (fst (decrypt_chunks E c0
        (split_chunks ms (concat (fst (encrypt_chunks E c0 (split_chunks ns x))))))) = x"
  proof (intro exI [of _ ?c0] conjI)
    show "create_aes (sha256 H (prekey @ secret)) (from_bytes_big iv) = Inr ?c0"
      by (rule create_aes_digest)
    show "concat (fst (encrypt_chunks E ?c0 (split_chunks ns x))) =
        map (\<lambda>i. x ! i XOR
               ctr_keystream E (sha256 H (prekey @ secret)) (word_of_int (from_bytes_big iv)) i)
          [0..<length x]"
      using e [of "split_chunks ns x"] by simp
    show "concat (fst (decrypt_chunks E ?c0 (split_chunks ms x))) =
        map (\<lambda>i. x ! i XOR
               ctr_keystream E (sha256 H (prekey @ secret)) (word_of_int (from_bytes_big iv)) i)
          [0..<length x]"
      unfolding decrypt_chunks_eq using e [of "split_chunks ms x"] by simp
    show "concat (fst (decrypt_chunks E ?c0
        (split_chunks ms (concat (fst (encrypt_chunks E ?c0 (split_chunks ns x))))))) = x"
      by (rule roundtrip)
  qed
  show "fst (aes_encrypt E c y) = map (\<lambda>i. y ! i XOR kbyte E c i) [0..<length y]"
    by (rule aes_encrypt_xor)
  show "fst (aes_decrypt E c y) = map (\<lambda>i. y ! i XOR kbyte E c i) [0..<length y]"
    unfolding aes_decrypt_def by (rule aes_encrypt_xor)
  show "snd (aes_decrypt E c y) = snd (aes_encrypt E c y)"
    by (simp add: aes_decrypt_def)
  show "kbyte E (snd (aes_encrypt E c y)) j = kbyte E c (length y + j)"
    by (rule aes_encrypt_kbyte)
  show "counter (snd (aes_encrypt E c y)) =
     counter c + of_nat ((length y - length (remaining_counter c) + 15) div 16)"
    by (rule aes_encrypt_counter)
  show "counter (snd (aes_encrypt E (c\<lparr>remaining_counter := []\<rparr>) y)) =
     counter c + of_nat ((length y + 15) div 16)"
    by (simp add: aes_encrypt_counter)
qed

text \<open>
  Claim C8 as stated fails in its clause on the counter: after a first call on one byte,
  15 keystream bytes are kept, and a second call on one byte does not advance the counter
  at all, where \<open>ceil(1 / 16) = 1\<close>.
\<close>

theorem ctr_counter_per_call_counterexample:
  "counter (snd (aes_encrypt toy_E
       (snd (aes_encrypt toy_E \<lparr>aes_key = replicate 32 0, counter = 0, remaining_counter = []\<rparr> [0x41]))
       [0x42]))
   \<noteq> counter (snd (aes_encrypt toy_E
         \<lparr>aes_key = replicate 32 0, counter = 0, remaining_counter = []\<rparr> [0x41]))
       + of_nat ((length [0x42 :: byte] + 15) div 16)"
  by (simp add: aes_encrypt_counter aes_encrypt_remaining_length)

section \<open>The pumps and the registry\<close>

lemma read_update_stats [simp]:
  "read_curr_connects_x2 (update_stats u a b c st) u = read_curr_connects_x2 st u + b"
  by (simp add: read_curr_connects_x2_def update_stats_def empty_counter_def split: option.splits)

lemma pump_exit_effect:
  "pump_exit raised p st acts = (p', st', acts') \<Longrightarrow>
     read_curr_connects_x2 st' (pump_user p) = read_curr_connects_x2 st (pump_user p) - 1
     \<and> alive p' = 0 \<and> pump_user p' = pump_user p"
  by (auto simp: pump_exit_def alive_def Let_def split: option.splits if_splits)

lemma pump_step_effect:
  assumes "pump_step E ev (p, st, acts) = (p', st', acts')"
  shows "read_curr_connects_x2 st' (pump_user p) =
           read_curr_connects_x2 st (pump_user p) + alive p' - alive p
         \<and> pump_user p' = pump_user p"
proof (cases "pc p")
  case NotStarted
  with assms show ?thesis by (cases ev) (auto simp: alive_def)
next
  case (Exited x)
  with assms show ?thesis by (auto simp: alive_def)
next
  case InLoop
  then have a: "alive p = 1" by (simp add: alive_def)
  show ?thesis
  proof (cases ev)
    case Start
    with InLoop assms show ?thesis by auto
  next
    case (ReadRaises e)
    with InLoop assms have "pump_exit (Some e) p st acts = (p', st', acts')" by simp
    from pump_exit_effect [OF this] a show ?thesis by simp
  next
    case (ReadReturns buf w d)
    obtain data rd' where r: "wrapped_read E (rd p) buf = (data, rd')" by (cases "wrapped_read E (rd p) buf")
    show ?thesis
    proof (cases "data = []")
      case True
      with InLoop ReadReturns r assms have
        "\<exists>x acts0. pump_exit x (p\<lparr>rd := rd'\<rparr>) st acts0 = (p', st', acts')"
        by (auto simp: Let_def split: option.splits)
      then obtain x acts0 where "pump_exit x (p\<lparr>rd := rd'\<rparr>) st acts0 = (p', st', acts')" by blast
      from pump_exit_effect [OF this] a show ?thesis by simp
    next
      case False
      obtain out wr' where e: "encrypt E (wr p) data = (out, wr')" by (cases "encrypt E (wr p) data")
      let ?st1 = "update_stats (pump_user p) 0 0 (int (length data)) st"
      let ?p2 = "p\<lparr>rd := rd', wr := wr'\<rparr>"
      from False InLoop ReadReturns r e assms consider
        (exit) x acts0 where "pump_exit x ?p2 ?st1 acts0 = (p', st', acts')"
        | (cont) "p' = ?p2" "st' = ?st1"
        by (auto simp: Let_def split: option.splits)
      then show ?thesis
      proof cases
        case exit
        from pump_exit_effect [OF exit] a show ?thesis by simp
      next
        case cont
        with InLoop a show ?thesis by (simp add: alive_def)
      qed
    qed
  qed
qed

lemma run_pumps_accounting:
  "pump_user pa = u \<Longrightarrow> pump_user pb = u \<Longrightarrow>
   run_pumps E sched (pa, pb, st, acts) = (pa', pb', st', acts') \<Longrightarrow>
   read_curr_connects_x2 st' u =
     read_curr_connects_x2 st u + (alive pa' - alive pa) + (alive pb' - alive pb)"
proof (induction sched arbitrary: pa pb st acts)
  case Nil
  then show ?case by simp
next
  case (Cons x sched)
  obtain to_client ev where x: "x = (to_client, ev)" by (cases x)
  show ?case
  proof (cases to_client)
    case True
    obtain p1 st1 acts1 where s: "pump_step E ev (pa, st, acts) = (p1, st1, acts1)"
      by (cases "pump_step E ev (pa, st, acts)")
    from pump_step_effect [OF s] Cons.prems(1)
    have e: "read_curr_connects_x2 st1 u = read_curr_connects_x2 st u + alive p1 - alive pa"
      and u: "pump_user p1 = u" by simp_all
    from Cons.prems(3) x True s have "run_pumps E sched (p1, pb, st1, acts1) = (pa', pb', st', acts')"
      by simp
    from Cons.IH [OF u Cons.prems(2) this] e show ?thesis by simp
  next
    case False
    obtain p1 st1 acts1 where s: "pump_step E ev (pb, st, acts) = (p1, st1, acts1)"
      by (cases "pump_step E ev (pb, st, acts)")
    from pump_step_effect [OF s] Cons.prems(2)
    have e: "read_curr_connects_x2 st1 u = read_curr_connects_x2 st u + alive p1 - alive pb"
      and u: "pump_user p1 = u" by simp_all
    from Cons.prems(3) x False s have "run_pumps E sched (pa, p1, st1, acts1) = (pa', pb', st', acts')"
      by simp
    from Cons.IH [OF Cons.prems(1) u this] e show ?thesis by simp
  qed
qed

section \<open>The decrypting reader at the end of a stream\<close>

lemma decrypt_empty [simp]: "decrypt E d [] = ([], d)"
  by (cases d) (simp_all add: aes_decrypt_def)

lemma encrypt_length [simp]: "length (fst (encrypt E d x)) = length x"
  by (cases d) (simp_all add: split_beta)

lemma decrypt_length [simp]: "length (fst (decrypt E d x)) = length x"
  by (cases d) (simp_all add: split_beta aes_decrypt_def)

lemma wrapped_read_nil_iff: "(fst (wrapped_read E d buf) = []) = (buf = [])"
proof -
  have "length (fst (wrapped_read E d buf)) = length buf" by (simp add: wrapped_read_def)
  then show ?thesis by (metis length_0_conv)
qed

lemma pump_step_eof_action:
  "(WriteEof (dst p) \<in> set (snd (snd (pump_step E (ReadReturns buf w dr) (p\<lparr>pc := InLoop\<rparr>, st, [])))))
     = (buf = [])"
proof -
  obtain data rd' where r: "wrapped_read E (rd p) buf = (data, rd')"
    by (cases "wrapped_read E (rd p) buf")
  with wrapped_read_nil_iff [of E "rd p" buf] have d: "(data = []) = (buf = [])" by simp
  obtain out wr' where e: "encrypt E (wr p) data = (out, wr')" by (cases "encrypt E (wr p) data")
  show ?thesis
  proof (cases "buf = []")
    case True
    with d r show ?thesis
      by (simp add: pump_exit_def Let_def split: option.splits)
  next
    case False
    with d r e show ?thesis
      by (simp add: pump_exit_def Let_def split: option.splits)
  qed
qed

text \<open>
  Claim C10. \<open>CryptoWrappedStreamReader.read\<close> returns the empty byte string exactly
  when the read of the underlying stream returns it, and decrypting the empty string
  leaves the cipher object as it is, so the keystream goes on where it stood. A pump
  inside its loop calls \<open>write_eof\<close> exactly when the underlying read returns the empty
  string, and then, when nothing raises, it calls \<open>write_eof\<close>, \<open>drain\<close> and
  \<open>close\<close> on its writer and returns with its reader's cipher unchanged.
\<close>

theorem wrapped_read_eof_transparent:
  "(fst (wrapped_read E d buf) = []) = (buf = []) \<and>
   wrapped_read E d [] = ([], d) \<and>
   (WriteEof (dst p) \<in> set (snd (snd (pump_step E (ReadReturns buf w dr) (p\<lparr>pc := InLoop\<rparr>, st, [])))))
     = (buf = []) \<and>
   pump_step E (ReadReturns [] None None) (p\<lparr>pc := InLoop\<rparr>, st, acts) =
     (p\<lparr>pc := Exited None\<rparr>, update_stats (pump_user p) 0 (- 1) 0 st,
      acts @ [WriteEof (dst p), Drain (dst p), Close (dst p)])"
proof (intro conjI)
  show "(fst (wrapped_read E d buf) = []) = (buf = [])"
    by (rule wrapped_read_nil_iff)
  show "wrapped_read E d [] = ([], d)"
    by (simp add: wrapped_read_def)
  show "(WriteEof (dst p) \<in> set (snd (snd (pump_step E (ReadReturns buf w dr) (p\<lparr>pc := InLoop\<rparr>, st, [])))))
     = (buf = [])"
    by (rule pump_step_eof_action)
  show "pump_step E (ReadReturns [] None None) (p\<lparr>pc := InLoop\<rparr>, st, acts) =
     (p\<lparr>pc := Exited None\<rparr>, update_stats (pump_user p) 0 (- 1) 0 st,
      acts @ [WriteEof (dst p), Drain (dst p), Close (dst p)])"
    by (simp add: wrapped_read_def pump_exit_def)
qed

section \<open>The counter of live pumps\<close>

lemma pump_exit_leaves:
  "pump_exit raised p st acts = (p', st', acts') \<Longrightarrow>
     pc p' = Exited (case raised of None \<Rightarrow> None
                     | Some e \<Rightarrow> if pump_catches e then None else Some e)"
  by (auto simp: pump_exit_def Let_def split: option.splits if_splits)

lemma pump_step_leaves_when:
  assumes "pump_step E (ReadReturns buf w d) (p\<lparr>pc := InLoop\<rparr>, st, acts) = (p', st', acts')"
    and "buf = [] \<or> w \<noteq> None \<or> d \<noteq> None"
  shows "\<exists>x. pc p' = Exited x"
proof -
  obtain data rd' where r: "wrapped_read E (rd p) buf = (data, rd')"
    by (cases "wrapped_read E (rd p) buf")
  with wrapped_read_nil_iff [of E "rd p" buf] have n: "(data = []) = (buf = [])" by simp
  obtain out wr' where e: "encrypt E (wr p) data = (out, wr')" by (cases "encrypt E (wr p) data")
  from assms r e n have "\<exists>x q s a. pump_exit x q s a = (p', st', acts')"
    by (cases w; cases d; cases "buf = []") (auto simp: Let_def)
  then obtain x q s a where "pump_exit x q s a = (p', st', acts')" by blast
  from pump_exit_leaves [OF this] show ?thesis by blast
qed

lemma pump_step_stays:
  assumes "pump_step E (ReadReturns (b # bs) None None) (p\<lparr>pc := InLoop\<rparr>, st, acts) = (p', st', acts')"
  shows "pc p' = InLoop"
proof -
  obtain data rd' where r: "wrapped_read E (rd p) (b # bs) = (data, rd')"
    by (cases "wrapped_read E (rd p) (b # bs)")
  with wrapped_read_nil_iff [of E "rd p" "b # bs"] have n: "data \<noteq> []" by simp
  obtain out wr' where e: "encrypt E (wr p) data = (out, wr')" by (cases "encrypt E (wr p) data")
  from assms r e n show ?thesis by (auto simp: Let_def)
qed

lemma step_counter:
  "pump_step E ev (p\<lparr>pc := InLoop\<rparr>, st, acts) = (p', st', acts') \<Longrightarrow>
   read_curr_connects_x2 st' (pump_user p) =
     read_curr_connects_x2 st (pump_user p) + alive p' - 1"
  using pump_step_effect [of E ev "p\<lparr>pc := InLoop\<rparr>" st acts p' st' acts']
  by (simp add: alive_def)

text \<open>
  Claim C3. A pump that is started adds exactly 1 to its user's \<open>curr_connects_x2\<close>
  and is then inside its loop. Inside the loop, a read that returns data which is written
  and drained without an exception keeps the pump in the loop and the counter as it is.
  Every other way a turn can go makes the pump leave and takes exactly 1 away: the end of
  the stream (whatever \<open>write_eof\<close> and \<open>drain\<close> then do), a read that raises any
  exception \<open>e\<close>, a \<open>write\<close> or \<open>write_eof\<close> that raises, a \<open>drain\<close> that raises;
  the pump has then returned when its \<open>except\<close> clause catches \<open>e\<close> and has let \<open>e\<close>
  through otherwise. A pump that has left changes nothing any more. So for every schedule
  of the two pumps of a connection, the user's \<open>curr_connects_x2\<close> is its value before
  the connection plus the number of pumps that are inside their loops: once both are
  started it is 2 more, and once both have left (here one on an exception of its read,
  the other at the end of its stream) it is the value before again.
\<close>

theorem pump_counter_accounting:
  "(case pump_step E Start (p\<lparr>pc := NotStarted\<rparr>, st, acts) of
      (p', st', acts') \<Rightarrow>
        pc p' = InLoop \<and>
        read_curr_connects_x2 st' (pump_user p) = read_curr_connects_x2 st (pump_user p) + 1) \<and>
   (case pump_step E (ReadReturns (b # bs) None None) (p\<lparr>pc := InLoop\<rparr>, st, acts) of
      (p', st', acts') \<Rightarrow>
        pc p' = InLoop \<and>
        read_curr_connects_x2 st' (pump_user p) = read_curr_connects_x2 st (pump_user p)) \<and>
   (case pump_step E (ReadReturns [] w d) (p\<lparr>pc := InLoop\<rparr>, st, acts) of
      (p', st', acts') \<Rightarrow>
        (\<exists>x. pc p' = Exited x) \<and>
        read_curr_connects_x2 st' (pump_user p) = read_curr_connects_x2 st (pump_user p) - 1) \<and>
   (case pump_step E (ReadRaises e) (p\<lparr>pc := InLoop\<rparr>, st, acts) of
      (p', st', acts') \<Rightarrow>
        pc p' = Exited (if pump_catches e then None else Some e) \<and>
        read_curr_connects_x2 st' (pump_user p) = read_curr_connects_x2 st (pump_user p) - 1) \<and>
   (case pump_step E (ReadReturns buf (Some e) d) (p\<lparr>pc := InLoop\<rparr>, st, acts) of
      (p', st', acts') \<Rightarrow>
        pc p' = Exited (if pump_catches e then None else Some e) \<and>
        read_curr_connects_x2 st' (pump_user p) = read_curr_connects_x2 st (pump_user p) - 1) \<and>
   (case pump_step E (ReadReturns buf None (Some e)) (p\<lparr>pc := InLoop\<rparr>, st, acts) of
      (p', st', acts') \<Rightarrow>
        pc p' = Exited (if pump_catches e then None else Some e) \<and>
        read_curr_connects_x2 st' (pump_user p) = read_curr_connects_x2 st (pump_user p) - 1) \<and>
   pump_step E ev (p\<lparr>pc := Exited x\<rparr>, st, acts) = (p\<lparr>pc := Exited x\<rparr>, st, acts) \<and>
   (case run_pumps E sched
           (pa\<lparr>pc := NotStarted, pump_user := u\<rparr>, pb\<lparr>pc := NotStarted, pump_user := u\<rparr>, st, acts) of
      (pa', pb', st', acts') \<Rightarrow>
        read_curr_connects_x2 st' u = read_curr_connects_x2 st u + alive pa' + alive pb') \<and>
   (case run_pumps E [(True, Start), (False, Start)]
           (pa\<lparr>pc := NotStarted, pump_user := u\<rparr>, pb\<lparr>pc := NotStarted, pump_user := u\<rparr>, st, acts) of
      (pa', pb', st', acts') \<Rightarrow>
        pc pa' = InLoop \<and> pc pb' = InLoop \<and>
        read_curr_connects_x2 st' u = read_curr_connects_x2 st u + 2) \<and>
   (case run_pumps E [(True, Start), (False, Start), (True, ReadRaises e), (False, ReadReturns [] w d)]
           (pa\<lparr>pc := NotStarted, pump_user := u\<rparr>, pb\<lparr>pc := NotStarted, pump_user := u\<rparr>, st, acts) of
      (pa', pb', st', acts') \<Rightarrow>
        (\<exists>x. pc pa' = Exited x) \<and> (\<exists>x. pc pb' = Exited x) \<and>
        read_curr_connects_x2 st' u = read_curr_connects_x2 st u)"
proof (intro conjI)
  show "case pump_step E Start (p\<lparr>pc := NotStarted\<rparr>, st, acts) of
      (p', st', acts') \<Rightarrow>
        pc p' = InLoop \<and>
        read_curr_connects_x2 st' (pump_user p) = read_curr_connects_x2 st (pump_user p) + 1"
    by simp
next
  obtain p' st' acts' where
    s: "pump_step E (ReadReturns (b # bs) None None) (p\<lparr>pc := InLoop\<rparr>, st, acts) = (p', st', acts')"
    by (cases "pump_step E (ReadReturns (b # bs) None None) (p\<lparr>pc := InLoop\<rparr>, st, acts)")
  from pump_step_stays [OF s] step_counter [OF s]
  show "case pump_step E (ReadReturns (b # bs) None None) (p\<lparr>pc := InLoop\<rparr>, st, acts) of
      (p', st', acts') \<Rightarrow>
        pc p' = InLoop \<and>
        read_curr_connects_x2 st' (pump_user p) = read_curr_connects_x2 st (pump_user p)"
    unfolding s by (simp add: alive_def)
next
  obtain p' st' acts' where
    s: "pump_step E (ReadReturns [] w d) (p\<lparr>pc := InLoop\<rparr>, st, acts) = (p', st', acts')"
    by (cases "pump_step E (ReadReturns [] w d) (p\<lparr>pc := InLoop\<rparr>, st, acts)")
  from pump_step_leaves_when [OF s] step_counter [OF s]
  show "case pump_step E (ReadReturns [] w d) (p\<lparr>pc := InLoop\<rparr>, st, acts) of
      (p', st', acts') \<Rightarrow>
        (\<exists>x. pc p' = Exited x) \<and>
        read_curr_connects_x2 st' (pump_user p) = read_curr_connects_x2 st (pump_user p) - 1"
    unfolding s by (auto simp: alive_def)
next
  obtain p' st' acts' where
    s: "pump_step E (ReadRaises e) (p\<lparr>pc := InLoop\<rparr>, st, acts) = (p', st', acts')"
    by (cases "pump_step E (ReadRaises e) (p\<lparr>pc := InLoop\<rparr>, st, acts)")
  then have "pump_exit (Some e) (p\<lparr>pc := InLoop\<rparr>) st acts = (p', st', acts')" by simp
  from pump_exit_leaves [OF this] step_counter [OF s]
  show "case pump_step E (ReadRaises e) (p\<lparr>pc := InLoop\<rparr>, st, acts) of
      (p', st', acts') \<Rightarrow>
        pc p' = Exited (if pump_catches e then None else Some e) \<and>
        read_curr_connects_x2 st' (pump_user p) = read_curr_connects_x2 st (pump_user p) - 1"
    unfolding s by (simp add: alive_def)
next
  obtain p' st' acts' where
    s: "pump_step E (ReadReturns buf (Some e) d) (p\<lparr>pc := InLoop\<rparr>, st, acts) = (p', st', acts')"
    by (cases "pump_step E (ReadReturns buf (Some e) d) (p\<lparr>pc := InLoop\<rparr>, st, acts)")
  then have "\<exists>q s a. pump_exit (Some e) q s a = (p', st', acts')"
    by (auto simp: Let_def split_beta split: if_splits)
  then obtain q s' a where "pump_exit (Some e) q s' a = (p', st', acts')" by blast
  from pump_exit_leaves [OF this] step_counter [OF s]
  show "case pump_step E (ReadReturns buf (Some e) d) (p\<lparr>pc := InLoop\<rparr>, st, acts) of
      (p', st', acts') \<Rightarrow>
        pc p' = Exited (if pump_catches e then None else Some e) \<and>
        read_curr_connects_x2 st' (pump_user p) = read_curr_connects_x2 st (pump_user p) - 1"
    unfolding s by (simp add: alive_def)
next
  obtain p' st' acts' where
    s: "pump_step E (ReadReturns buf None (Some e)) (p\<lparr>pc := InLoop\<rparr>, st, acts) = (p', st', acts')"
    by (cases "pump_step E (ReadReturns buf None (Some e)) (p\<lparr>pc := InLoop\<rparr>, st, acts)")
  then have "\<exists>q s a. pump_exit (Some e) q s a = (p', st', acts')"
    by (auto simp: Let_def split_beta split: if_splits)
  then obtain q s' a where "pump_exit (Some e) q s' a = (p', st', acts')" by blast
  from pump_exit_leaves [OF this] step_counter [OF s]
  show "case pump_step E (ReadReturns buf None (Some e)) (p\<lparr>pc := InLoop\<rparr>, st, acts) of
      (p', st', acts') \<Rightarrow>
        pc p' = Exited (if pump_catches e then None else Some e) \<and>
        read_curr_connects_x2 st' (pump_user p) = read_curr_connects_x2 st (pump_user p) - 1"
    unfolding s by (simp add: alive_def)
next
  show "pump_step E ev (p\<lparr>pc := Exited x\<rparr>, st, acts) = (p\<lparr>pc := Exited x\<rparr>, st, acts)"
    by simp
next
  let ?pa = "pa\<lparr>pc := NotStarted, pump_user := u\<rparr>" and ?pb = "pb\<lparr>pc := NotStarted, pump_user := u\<rparr>"
  obtain pa' pb' st' acts' where r: "run_pumps E sched (?pa, ?pb, st, acts) = (pa', pb', st', acts')"
    by (cases "run_pumps E sched (?pa, ?pb, st, acts)")
  have "read_curr_connects_x2 st' u =
     read_curr_connects_x2 st u + (alive pa' - alive ?pa) + (alive pb' - alive ?pb)"
    by (rule run_pumps_accounting [OF _ _ r]) simp_all
  then show "case run_pumps E sched (?pa, ?pb, st, acts) of
      (pa', pb', st', acts') \<Rightarrow>
        read_curr_connects_x2 st' u = read_curr_connects_x2 st u + alive pa' + alive pb'"
    unfolding r by (simp add: alive_def)
next
  show "case run_pumps E [(True, Start), (False, Start)]
           (pa\<lparr>pc := NotStarted, pump_user := u\<rparr>, pb\<lparr>pc := NotStarted, pump_user := u\<rparr>, st, acts) of
      (pa', pb', st', acts') \<Rightarrow>
        pc pa' = InLoop \<and> pc pb' = InLoop \<and>
        read_curr_connects_x2 st' u = read_curr_connects_x2 st u + 2"
    by simp
next
  let ?st2 = "update_stats u 0 1 0 (update_stats u 0 1 0 st)"
  let ?pa = "pa\<lparr>pump_user := u\<rparr>" and ?pb = "pb\<lparr>pump_user := u\<rparr>"
  obtain pa1 st3 a3 where
    s1: "pump_step E (ReadRaises e) (?pa\<lparr>pc := InLoop\<rparr>, ?st2, acts) = (pa1, st3, a3)"
    by (cases "pump_step E (ReadRaises e) (?pa\<lparr>pc := InLoop\<rparr>, ?st2, acts)")
  obtain pb1 st4 a4 where
    s2: "pump_step E (ReadReturns [] w d) (?pb\<lparr>pc := InLoop\<rparr>, st3, a3) = (pb1, st4, a4)"
    by (cases "pump_step E (ReadReturns [] w d) (?pb\<lparr>pc := InLoop\<rparr>, st3, a3)")
  from s1 have "pump_exit (Some e) (?pa\<lparr>pc := InLoop\<rparr>) ?st2 acts = (pa1, st3, a3)" by simp
  from pump_exit_leaves [OF this] have x1: "\<exists>x. pc pa1 = Exited x" by simp
  from pump_step_leaves_when [OF s2] have x2: "\<exists>x. pc pb1 = Exited x" by simp
  from x1 x2 have al: "alive pa1 = 0" "alive pb1 = 0" by (auto simp: alive_def)
  from step_counter [OF s1] step_counter [OF s2] al
  have c: "read_curr_connects_x2 st4 u = read_curr_connects_x2 st u" by simp
  have r: "run_pumps E [(True, Start), (False, Start), (True, ReadRaises e), (False, ReadReturns [] w d)]
           (pa\<lparr>pc := NotStarted, pump_user := u\<rparr>, pb\<lparr>pc := NotStarted, pump_user := u\<rparr>, st, acts)
        = (pa1, pb1, st4, a4)"
    using s1 s2 by (simp del: pump_step.simps add: pump_step.simps [of E Start])
  show "case run_pumps E [(True, Start), (False, Start), (True, ReadRaises e), (False, ReadReturns [] w d)]
           (pa\<lparr>pc := NotStarted, pump_user := u\<rparr>, pb\<lparr>pc := NotStarted, pump_user := u\<rparr>, st, acts) of
      (pa', pb', st', acts') \<Rightarrow>
        (\<exists>x. pc pa' = Exited x) \<and> (\<exists>x. pc pb' = Exited x) \<and>
        read_curr_connects_x2 st' u = read_curr_connects_x2 st u"
    unfolding r using x1 x2 c by simp
qed

section \<open>The client handshake\<close>

lemmas lens = SKIP_LEN_def PREKEY_LEN_def KEY_LEN_def IV_LEN_def HANDSHAKE_LEN_def
  MAGIC_VAL_POS_def MAGIC_VAL_TO_CHECK_def

lemma aes_encrypt_fresh64:
  assumes "remaining_counter c = []" "length x = 64"
  shows "snd (aes_encrypt E c x) = c\<lparr>counter := counter c + 4\<rparr>"
proof (rule aes_ctr.equality)
  show "counter (snd (aes_encrypt E c x)) = counter (c\<lparr>counter := counter c + 4\<rparr>)"
    using assms by (simp add: aes_encrypt_counter)
  have "length (remaining_counter (snd (aes_encrypt E c x))) = 0"
    using assms by (simp add: aes_encrypt_remaining_length)
  then show "remaining_counter (snd (aes_encrypt E c x)) = remaining_counter (c\<lparr>counter := counter c + 4\<rparr>)"
    using assms by simp
qed (simp_all add: aes_encrypt_def Let_def)

lemma slice_prekey: "take 32 (slice 8 56 hs) = slice 8 40 hs"
  by (simp add: slice_def take_take)

lemma slice_iv: "drop 32 (slice 8 56 hs) = slice 40 56 hs"
  by (simp add: slice_def drop_take)

lemma handshake_users_skip:
  assumes "fromhex h = Some s" "\<not> magic_ok E H hs s"
  shows "handshake_users E H hs ((u, h) # rest) = handshake_users E H hs rest"
  using assms
  by (simp add: lens create_aes_digest magic_ok_def trial_decryption_def slice_prekey slice_iv
      split_beta Let_def)

lemma handshake_users_match:
  assumes "fromhex h = Some s" "magic_ok E H hs s" "length hs = 64"
  shows "handshake_users E H hs ((u, h) # rest) = Inr (Some (accepted E H hs u s))"
  using assms
  by (simp add: lens create_aes_digest magic_ok_def trial_decryption_def slice_prekey slice_iv
      split_beta Let_def accepted_def aes_decrypt_def aes_encrypt_fresh64)

lemma handshake_users_first_match:
  assumes "\<forall>(u, h) \<in> set pre. \<exists>s. fromhex h = Some s \<and> \<not> magic_ok E H hs s"
    and "fromhex h = Some s" "magic_ok E H hs s" "length hs = 64"
  shows "handshake_users E H hs (pre @ (u, h) # post) = Inr (Some (accepted E H hs u s))"
  using assms(1)
proof (induction pre)
  case Nil
  show ?case using assms(2-4) by (simp only: append_Nil handshake_users_match)
next
  case (Cons x pre)
  obtain u' h' where x: "x = (u', h')" by (cases x)
  from Cons.prems x obtain s' where "fromhex h' = Some s'" "\<not> magic_ok E H hs s'" by auto
  then have "handshake_users E H hs ((u', h') # (pre @ (u, h) # post))
               = handshake_users E H hs (pre @ (u, h) # post)"
    by (rule handshake_users_skip)
  with Cons x show ?case by simp
qed

lemma handshake_users_no_match:
  assumes "\<forall>(u, h) \<in> set users. \<exists>s. fromhex h = Some s \<and> \<not> magic_ok E H hs s"
  shows "handshake_users E H hs users = Inr None"
  using assms
proof (induction users)
  case Nil
  show ?case by simp
next
  case (Cons x users)
  obtain u' h' where x: "x = (u', h')" by (cases x)
  from Cons.prems x obtain s' where "fromhex h' = Some s'" "\<not> magic_ok E H hs s'" by auto
  then have "handshake_users E H hs ((u', h') # users) = handshake_users E H hs users"
    by (rule handshake_users_skip)
  with Cons x show ?case by simp
qed



lemma handle_handshake_read:
  "64 \<le> length buf \<Longrightarrow>
   handle_handshake E H users (buf, e) = handshake_users E H (take 64 buf) users"
  by (simp add: handle_handshake_def readexactly_def HANDSHAKE_LEN_def)

lemma accepted_reader:
  "length hs = 64 \<Longrightarrow>
   clt_reader (accepted E H hs u s) =
     Ctr (snd (aes_decrypt E
       \<lparr>aes_key = sha256 H (slice 8 40 hs @ s),
        counter = word_of_int (from_bytes_big (slice 40 56 hs)),
        remaining_counter = []\<rparr> hs))"
  by (simp add: accepted_def aes_decrypt_def aes_encrypt_fresh64)

lemma length_key_material [simp]: "length hs = 64 \<Longrightarrow> length (clt_enc_key_and_iv (accepted E H hs u s)) = 48"
  by (simp add: accepted_def slice_def)

text \<open>
  Claim C2. When the client delivers at least 64 bytes, every user before \<open>U\<close> in the
  configured order has a secret whose trial decryption of the preamble (key
  \<open>SHA-256(preamble[8..40] || secret)\<close>, counter from \<open>preamble[40..56]\<close> big-endian)
  does not show \<open>EF EF EF EF\<close> at bytes 56..60, and the trial decryption under the secret
  of \<open>U\<close> does, then \<open>handle_handshake\<close> returns \<open>U\<close>, the datacenter index
  \<open>abs(signed_le_i16(decrypted[60..62])) - 1\<close>, a reader whose decryptor is that same
  trial decryptor after the 64 bytes (its counter 4 blocks on), a writer whose encryptor is
  keyed by \<open>SHA-256(reverse(preamble[8..56])[0..32] || secret)\<close> with the IV
  \<open>reverse(preamble[8..56])[32..48]\<close>, and the 48 bytes \<open>enc_key || enc_iv\<close>.
\<close>

theorem handshake_accept:
  assumes "64 \<le> length buf"
    and "\<forall>(u, h) \<in> set pre. \<exists>s. fromhex h = Some s \<and> \<not> magic_ok E H (take 64 buf) s"
    and "fromhex hexU = Some secret"
    and "magic_ok E H (take 64 buf) secret"
  shows "handle_handshake E H (pre @ (U, hexU) # post) (buf, e) =
           Inr (Some (accepted E H (take 64 buf) U secret)) \<and>
         clt_reader (accepted E H (take 64 buf) U secret) =
           Ctr (snd (aes_decrypt E
             \<lparr>aes_key = sha256 H (slice 8 40 (take 64 buf) @ secret),
              counter = word_of_int (from_bytes_big (slice 40 56 (take 64 buf))),
              remaining_counter = []\<rparr> (take 64 buf))) \<and>
         length (clt_enc_key_and_iv (accepted E H (take 64 buf) U secret)) = 48"
proof -
  from assms(1) have len: "length (take 64 buf) = 64" by simp
  from assms(1) have "handle_handshake E H (pre @ (U, hexU) # post) (buf, e) =
      handshake_users E H (take 64 buf) (pre @ (U, hexU) # post)"
    by (rule handle_handshake_read)
  also have "\<dots> = Inr (Some (accepted E H (take 64 buf) U secret))"
    using assms(2-4) len by (rule handshake_users_first_match)
  finally show ?thesis using len by (simp add: accepted_reader)
qed

lemma demo_alice_fails:
  "\<forall>(u, h) \<in> set [(''alice'', ''00000000000000000000000000000001'')].
     \<exists>s. fromhex h = Some s \<and> \<not> magic_ok toy_E toy_H (take 64 (demo_preamble @ [7, 7, 7])) s"
proof -
  have "fromhex ''00000000000000000000000000000001'' = Some [0, 0, 0, 0, 0, 0, 0, 0, 0, 0, 0, 0, 0, 0, 0, 1]
      \<and> \<not> magic_ok toy_E toy_H (take 64 (demo_preamble @ [7, 7, 7])) [0, 0, 0, 0, 0, 0, 0, 0, 0, 0, 0, 0, 0, 0, 0, 1]"
    by code_simp
  then show ?thesis by auto
qed

lemma demo_bob_secret: "fromhex ''00000000000000000000000000000002'' = Some demo_secret"
  by code_simp

lemma demo_bob_matches: "magic_ok toy_E toy_H (take 64 (demo_preamble @ [7, 7, 7])) demo_secret"
  by code_simp

text \<open>The theorem of claim C2 at the demonstration table and preamble: the second user
  is accepted, with the datacenter index 0.\<close>

theorem handshake_accept_witness:
  "handle_handshake toy_E toy_H demo_users (demo_preamble @ [7, 7, 7], EOF) =
     Inr (Some (accepted toy_E toy_H demo_preamble ''bob'' demo_secret)) \<and>
   clt_dc_idx (accepted toy_E toy_H demo_preamble ''bob'' demo_secret) = 0"
proof -
  have a: "64 \<le> length (demo_preamble @ [7, 7, 7 :: byte])" by (simp add: demo_preamble_def)
  have t: "take 64 (demo_preamble @ [7, 7, 7]) = demo_preamble" by (simp add: demo_preamble_def)
  have u: "demo_users = [(''alice'', ''00000000000000000000000000000001'')] @
      (''bob'', ''00000000000000000000000000000002'') # []" by (simp add: demo_users_def)
  have d: "clt_dc_idx (accepted toy_E toy_H demo_preamble ''bob'' demo_secret) = 0" by code_simp
  from handshake_accept [OF a demo_alice_fails demo_bob_secret demo_bob_matches, of "''bob''" "[]" EOF]
  show ?thesis unfolding t u [symmetric] using d by simp
qed

section \<open>The upstream handshake\<close>

lemma sample_rnd_Some:
  "sample_rnd draws = Some rnd \<Longrightarrow> length rnd = 64 \<and> \<not> rejected rnd"
proof (induction draws rule: sample_rnd.induct)
  case (1 draws)
  from "1.prems" have l: "\<not> length draws < HANDSHAKE_LEN"
    by (subst (asm) sample_rnd.simps) (simp split: if_splits)
  show ?case
  proof (cases "rejected (take HANDSHAKE_LEN draws)")
    case True
    with l "1.prems" have "sample_rnd (drop HANDSHAKE_LEN draws) = Some rnd"
      by (subst (asm) sample_rnd.simps) (simp add: Let_def)
    with "1.IH" l True show ?thesis by simp
  next
    case False
    with l "1.prems" have "rnd = take HANDSHAKE_LEN draws"
      by (subst (asm) sample_rnd.simps) (simp add: Let_def)
    with l False show ?thesis by (simp add: HANDSHAKE_LEN_def)
  qed
qed

lemma settle_rnd_prefix:
  "length rnd0 = 64 \<Longrightarrow> take 8 (settle_rnd reuse rnd0) = take 8 rnd0"
  by (simp add: settle_rnd_def set_slice_def lens Let_def split: option.splits)

lemma settle_rnd_length:
  "length rnd0 = 64 \<Longrightarrow> (case reuse of None \<Rightarrow> True | Some k \<Rightarrow> length k = 48) \<Longrightarrow>
   length (settle_rnd reuse rnd0) = 64"
  by (simp add: settle_rnd_def set_slice_def lens Let_def split: option.splits)

lemma settle_rnd_reuse:
  "length rnd0 = 64 \<Longrightarrow> length k = 48 \<Longrightarrow>
   slice 8 56 (settle_rnd (Some k) rnd0) = rev k"
  by (auto simp: settle_rnd_def set_slice_def lens Let_def slice_def)

lemma settle_rnd_magic:
  "length rnd0 = 64 \<Longrightarrow> (case reuse of None \<Rightarrow> True | Some k \<Rightarrow> length k = 48) \<Longrightarrow>
   slice 56 60 (settle_rnd reuse rnd0) = [0xEF, 0xEF, 0xEF, 0xEF]"
  by (auto simp: settle_rnd_def set_slice_def lens Let_def slice_def split: option.splits)

lemma not_rejected_prefix:
  assumes "take 8 rnd = take 8 rnd0" "\<not> rejected rnd0"
  shows "\<not> rejected rnd"
proof -
  from assms(1) have "take 1 (take 8 rnd) = take 1 (take 8 rnd0)" by (rule arg_cong)
  then have a: "take 1 rnd = take 1 rnd0" by simp
  from assms(1) have "take 4 (take 8 rnd) = take 4 (take 8 rnd0)" by (rule arg_cong)
  then have b: "take 4 rnd = take 4 rnd0" by simp
  from assms(1) have "drop 4 (take 8 rnd) = drop 4 (take 8 rnd0)" by (rule arg_cong)
  then have c: "slice 4 8 rnd = slice 4 8 rnd0" by (simp add: slice_def drop_take)
  from assms(2) show ?thesis unfolding rejected_def a b c .
qed

text \<open>
  Claim C6. Every preamble that \<open>do_direct_handshake\<close> settles on, after the sampling
  loop, the overwrite of bytes 56..60 with the magic and the overwrite of bytes 8..56 with
  the reversed key material when 48 bytes of it are passed, has 64 bytes, a first byte other
  than \<open>EF\<close>, first four bytes other than \<open>HEAD\<close>, \<open>POST\<close>, \<open>GET \<close> and
  \<open>EE EE EE EE\<close>, and bytes 4..8 other than \<open>00 00 00 00\<close>.
\<close>

theorem preamble_avoids_reserved:
  assumes "sample_rnd draws = Some rnd0"
    and "case reuse of None \<Rightarrow> True | Some k \<Rightarrow> length k = 48"
  shows "length (settle_rnd reuse rnd0) = 64 \<and>
         settle_rnd reuse rnd0 ! 0 \<noteq> 0xEF \<and>
         take 4 (settle_rnd reuse rnd0) \<noteq> [0x48, 0x45, 0x41, 0x44] \<and>
         take 4 (settle_rnd reuse rnd0) \<noteq> [0x50, 0x4F, 0x53, 0x54] \<and>
         take 4 (settle_rnd reuse rnd0) \<noteq> [0x47, 0x45, 0x54, 0x20] \<and>
         take 4 (settle_rnd reuse rnd0) \<noteq> [0xEE, 0xEE, 0xEE, 0xEE] \<and>
         slice 4 8 (settle_rnd reuse rnd0) \<noteq> [0, 0, 0, 0]"
proof -
  let ?rnd = "settle_rnd reuse rnd0"
  from sample_rnd_Some [OF assms(1)] have l0: "length rnd0 = 64" and r0: "\<not> rejected rnd0"
    by simp_all
  from l0 assms(2) have l: "length ?rnd = 64" by (rule settle_rnd_length)
  from settle_rnd_prefix [OF l0] r0 have r: "\<not> rejected ?rnd" by (rule not_rejected_prefix)
  from l have "take 1 ?rnd = [?rnd ! 0]" by (cases ?rnd) simp_all
  with r l show ?thesis
    by (simp add: rejected_def RESERVED_NONCE_FIRST_CHARS_def RESERVED_NONCE_BEGININGS_def
        RESERVED_NONCE_CONTINUES_def)
qed

lemma demo_sample: "sample_rnd demo_draws = Some (replicate 64 1)"
  by code_simp

lemma demo_reuse_length: "case Some demo_key_material of None \<Rightarrow> True | Some k \<Rightarrow> length k = 48"
  by code_simp

text \<open>The theorem of claim C6 at the demonstration values: the loop rejects the first
  64 values, settles on the next 64, and the key material is written over bytes 8..56.\<close>

theorem preamble_avoids_reserved_witness:
  "length (settle_rnd (Some demo_key_material) (replicate 64 1)) = 64 \<and>
   settle_rnd (Some demo_key_material) (replicate 64 1) ! 0 \<noteq> 0xEF \<and>
   take 4 (settle_rnd (Some demo_key_material) (replicate 64 1)) \<noteq> [0x48, 0x45, 0x41, 0x44] \<and>
   take 4 (settle_rnd (Some demo_key_material) (replicate 64 1)) \<noteq> [0x50, 0x4F, 0x53, 0x54] \<and>
   take 4 (settle_rnd (Some demo_key_material) (replicate 64 1)) \<noteq> [0x47, 0x45, 0x54, 0x20] \<and>
   take 4 (settle_rnd (Some demo_key_material) (replicate 64 1)) \<noteq> [0xEE, 0xEE, 0xEE, 0xEE] \<and>
   slice 4 8 (settle_rnd (Some demo_key_material) (replicate 64 1)) \<noteq> [0, 0, 0, 0]"
  by (rule preamble_avoids_reserved [OF demo_sample demo_reuse_length])

lemma do_direct_handshake_success:
  assumes "do_direct_handshake E ipv6 idx reuse conn draws dr = (Some (Inr (Some tg)), acts)"
  shows "\<exists>dc rnd0 dec enc.
           choose_dc ipv6 idx = Some dc \<and> conn = None \<and> dr = None \<and>
           sample_rnd draws = Some rnd0 \<and>
           create_aes (take 32 (rev (slice 8 56 (settle_rnd reuse rnd0))))
             (from_bytes_big (drop 32 (rev (slice 8 56 (settle_rnd reuse rnd0))))) = Inr dec \<and>
           create_aes (take 32 (slice 8 56 (settle_rnd reuse rnd0)))
             (from_bytes_big (drop 32 (slice 8 56 (settle_rnd reuse rnd0)))) = Inr enc \<and>
           tg = \<lparr>tg_reader = Ctr dec,
                 tg_writer = Ctr (snd (aes_encrypt E enc (settle_rnd reuse rnd0)))\<rparr> \<and>
           acts = [OpenConnection dc 443,
                   Write Telegram (take 56 (settle_rnd reuse rnd0) @
                                   drop 56 (fst (aes_encrypt E enc (settle_rnd reuse rnd0)))),
                   Drain Telegram]"
  using assms
  by (auto simp: do_direct_handshake_def Let_def split_beta lens TG_DATACENTER_PORT_def
      split: option.splits sum.splits if_splits)

text \<open>
  Claim C7. When \<open>do_direct_handshake\<close> returns its two wrappers, on the preamble
  \<open>rnd\<close> it settled on, what it has written to the datacenter is \<open>rnd[0..56]\<close>
  followed by the last 8 bytes of the encryption of the whole of \<open>rnd\<close> under the
  upstream encryptor, in one \<open>write\<close> followed by one \<open>drain\<close>; and the encryptor in
  the returned writer is the one created from \<open>rnd[8..40]\<close> and \<open>rnd[40..56]\<close>, with
  nothing kept and its counter exactly 4 blocks after its IV.
\<close>

theorem upstream_preamble_transmission:
  assumes "do_direct_handshake E ipv6 idx reuse conn draws dr = (Some (Inr (Some tg)), acts)"
    and "case reuse of None \<Rightarrow> True | Some k \<Rightarrow> length k = 48"
  shows "\<exists>dc rnd0 enc.
           sample_rnd draws = Some rnd0 \<and>
           create_aes (take 32 (slice 8 56 (settle_rnd reuse rnd0)))
             (from_bytes_big (drop 32 (slice 8 56 (settle_rnd reuse rnd0)))) = Inr enc \<and>
           acts = [OpenConnection dc 443,
                   Write Telegram (take 56 (settle_rnd reuse rnd0) @
                                   drop 56 (fst (aes_encrypt E enc (settle_rnd reuse rnd0)))),
                   Drain Telegram] \<and>
           length (drop 56 (fst (aes_encrypt E enc (settle_rnd reuse rnd0)))) = 8 \<and>
           tg_writer tg = Ctr (enc\<lparr>counter := counter enc + 4\<rparr>) \<and>
           remaining_counter enc = [] \<and>
           counter enc = word_of_int (from_bytes_big (slice 40 56 (settle_rnd reuse rnd0)))"
proof -
  from do_direct_handshake_success [OF assms(1)] obtain dc rnd0 dec enc where
    s: "sample_rnd draws = Some rnd0"
    and e: "create_aes (take 32 (slice 8 56 (settle_rnd reuse rnd0)))
             (from_bytes_big (drop 32 (slice 8 56 (settle_rnd reuse rnd0)))) = Inr enc"
    and t: "tg = \<lparr>tg_reader = Ctr dec,
                 tg_writer = Ctr (snd (aes_encrypt E enc (settle_rnd reuse rnd0)))\<rparr>"
    and a: "acts = [OpenConnection dc 443,
                   Write Telegram (take 56 (settle_rnd reuse rnd0) @
                                   drop 56 (fst (aes_encrypt E enc (settle_rnd reuse rnd0)))),
                   Drain Telegram]"
    by blast
  from sample_rnd_Some [OF s] have "length rnd0 = 64" by simp
  then have l: "length (settle_rnd reuse rnd0) = 64" using assms(2) by (rule settle_rnd_length)
  from e have r: "remaining_counter enc = []"
    and c: "counter enc = word_of_int (from_bytes_big (slice 40 56 (settle_rnd reuse rnd0)))"
    by (auto simp: create_aes_def slice_iv split: if_splits)
  from r l have "snd (aes_encrypt E enc (settle_rnd reuse rnd0)) = enc\<lparr>counter := counter enc + 4\<rparr>"
    by (rule aes_encrypt_fresh64)
  with s e t a l r c show ?thesis by simp
qed

lemma demo_direct_result:
  "fst (do_direct_handshake toy_E False 0 (Some demo_key_material) None demo_draws None)
     = Some (Inr (Some demo_tg))"
  by code_simp

lemma demo_direct:
  "do_direct_handshake toy_E False 0 (Some demo_key_material) None demo_draws None
     = (Some (Inr (Some demo_tg)),
        snd (do_direct_handshake toy_E False 0 (Some demo_key_material) None demo_draws None))"
  using demo_direct_result by (simp add: prod_eq_iff)

text \<open>The theorem of claim C7 at the demonstration values.\<close>

theorem upstream_preamble_transmission_witness:
  "\<exists>dc rnd0 enc.
      sample_rnd demo_draws = Some rnd0 \<and>
      create_aes (take 32 (slice 8 56 (settle_rnd (Some demo_key_material) rnd0)))
        (from_bytes_big (drop 32 (slice 8 56 (settle_rnd (Some demo_key_material) rnd0)))) = Inr enc \<and>
      snd (do_direct_handshake toy_E False 0 (Some demo_key_material) None demo_draws None) =
        [OpenConnection dc 443,
         Write Telegram (take 56 (settle_rnd (Some demo_key_material) rnd0) @
                         drop 56 (fst (aes_encrypt toy_E enc (settle_rnd (Some demo_key_material) rnd0)))),
         Drain Telegram] \<and>
      length (drop 56 (fst (aes_encrypt toy_E enc (settle_rnd (Some demo_key_material) rnd0)))) = 8 \<and>
      tg_writer demo_tg = Ctr (enc\<lparr>counter := counter enc + 4\<rparr>) \<and>
      remaining_counter enc = [] \<and>
      counter enc = word_of_int (from_bytes_big (slice 40 56 (settle_rnd (Some demo_key_material) rnd0)))"
  by (rule upstream_preamble_transmission [OF demo_direct demo_reuse_length])

section \<open>Fast mode\<close>

lemma aes_encrypt_state_length:
  "length y = length x \<Longrightarrow> snd (aes_encrypt E c y) = snd (aes_encrypt E c x)"
  using refill_length [of "length x" E c] by (simp add: aes_encrypt_def Let_def)

lemma aes_encrypt_decrypt:
  "aes_encrypt E c (fst (aes_decrypt E c buf)) = (buf, snd (aes_decrypt E c buf))"
proof -
  have "fst (aes_encrypt E c (fst (aes_encrypt E c buf))) = buf"
    by (simp add: aes_encrypt_out xor_from_twice)
  moreover have "snd (aes_encrypt E c (fst (aes_encrypt E c buf))) = snd (aes_encrypt E c buf)"
    by (rule aes_encrypt_state_length) simp
  ultimately show ?thesis by (simp add: aes_decrypt_def prod_eq_iff)
qed

lemma pump_exit_twin:
  "fast_twin p q \<Longrightarrow>
   \<exists>p' q' st' a'. pump_exit raised p st a = (p', st', a') \<and>
      pump_exit raised q st a = (q', st', a') \<and> fast_twin p' q'"
  by (auto simp: pump_exit_def Let_def fast_twin_def split: option.splits if_splits)

lemma pump_step_twin:
  assumes "fast_twin p q"
  shows "\<exists>p' q' st' a'. pump_step E ev (p, st, a) = (p', st', a') \<and>
           pump_step E ev (q, st, a) = (q', st', a') \<and> fast_twin p' q'"
proof -
  from assms obtain c where c: "rd p = Ctr c" "wr p = Ctr c" and q: "rd q = Fake" "wr q = Fake"
    and same: "pc q = pc p" "dst q = dst p" "pump_user q = pump_user p"
    by (auto simp: fast_twin_def)
  show ?thesis
  proof (cases "pc p")
    case NotStarted
    with assms same show ?thesis by (cases ev) (auto simp: fast_twin_def)
  next
    case (Exited x)
    with assms same show ?thesis by auto
  next
    case InLoop
    show ?thesis
    proof (cases ev)
      case Start
      with InLoop assms same show ?thesis by auto
    next
      case (ReadRaises e)
      with InLoop same pump_exit_twin [OF assms, of "Some e" st a] show ?thesis by simp
    next
      case (ReadReturns buf w d)
      obtain data c1 where dc: "aes_decrypt E c buf = (data, c1)" by (cases "aes_decrypt E c buf")
      with aes_encrypt_decrypt [of E c buf] have ec: "aes_encrypt E c data = (buf, c1)" by simp
      from dc have len: "length data = length buf"
        by (metis aes_decrypt_def aes_encrypt_length fst_conv)
      then have ne: "(data = []) = (buf = [])" by auto
      show ?thesis
      proof (cases "buf = []")
        case True
        with dc have c1: "c1 = c" by (simp add: aes_decrypt_def)
        from True ne have d0: "data = []" by simp
        have t: "fast_twin (p\<lparr>rd := Ctr c\<rparr>) (q\<lparr>rd := Fake\<rparr>)"
          using assms c by (simp add: fast_twin_def)
        from InLoop same ReadReturns True dc d0 c1 c q
          pump_exit_twin [OF t, of "Some (the w)" st "a @ [WriteEof (dst p)]"]
          pump_exit_twin [OF t, of "Some (the d)" st "a @ [WriteEof (dst p), Drain (dst p)]"]
          pump_exit_twin [OF t, of None st "a @ [WriteEof (dst p), Drain (dst p), Close (dst p)]"]
        show ?thesis
          by (cases w; cases d) (simp_all add: wrapped_read_def)
      next
        case False
        with ne have dne: "data \<noteq> []" by simp
        let ?st1 = "update_stats (pump_user p) 0 0 (int (length buf)) st"
        have t: "fast_twin (p\<lparr>rd := Ctr c1, wr := Ctr c1\<rparr>) (q\<lparr>rd := Fake, wr := Fake\<rparr>)"
          using assms by (simp add: fast_twin_def)
        from InLoop same ReadReturns False dc ec dne len c q t
          pump_exit_twin [OF t, of "Some (the w)" ?st1 "a @ [Write (dst p) buf]"]
          pump_exit_twin [OF t, of "Some (the d)" ?st1 "a @ [Write (dst p) buf, Drain (dst p)]"]
        show ?thesis
          by (cases w; cases d) (simp_all add: wrapped_read_def)
      qed
    qed
  qed
qed

lemma run_pump_twin:
  "fast_twin p q \<Longrightarrow> snd (run_pump E evs (p, st, a)) = snd (run_pump E evs (q, st, a))"
proof (induction evs arbitrary: p q st a)
  case Nil
  then show ?case by simp
next
  case (Cons ev evs)
  from pump_step_twin [OF Cons.prems, of E ev st a] obtain p' q' st' a' where
    "pump_step E ev (p, st, a) = (p', st', a')" "pump_step E ev (q, st, a) = (q', st', a')"
    "fast_twin p' q'" by blast
  with Cons.IH [OF this(3), of st' a'] show ?case by (simp del: pump_step.simps)
qed

lemma handshake_users_writer:
  "handshake_users E H hs users = Inr (Some clt) \<Longrightarrow>
   \<exists>ek. length ek = 32 \<and>
     clt_enc_key_and_iv clt = ek @ drop 32 (rev (slice 8 56 hs)) \<and>
     clt_writer clt =
       Ctr \<lparr>aes_key = ek,
            counter = word_of_int (from_bytes_big (drop 32 (rev (slice 8 56 hs)))),
            remaining_counter = []\<rparr>"
proof (induction users)
  case Nil
  then show ?case by simp
next
  case (Cons x users)
  obtain u h where x: "x = (u, h)" by (cases x)
  from Cons.prems x obtain s where s: "fromhex h = Some s" by (auto split: option.splits)
  show ?case
  proof (cases "magic_ok E H hs s")
    case False
    with s have "handshake_users E H hs ((u, h) # users) = handshake_users E H hs users"
      by (rule handshake_users_skip)
    with Cons x show ?thesis by simp
  next
    case True
    with s Cons.prems x have
      "clt_writer clt = Ctr \<lparr>aes_key = sha256 H (take 32 (rev (slice 8 56 hs)) @ s),
            counter = word_of_int (from_bytes_big (drop 32 (rev (slice 8 56 hs)))),
            remaining_counter = []\<rparr>
       \<and> clt_enc_key_and_iv clt =
            sha256 H (take 32 (rev (slice 8 56 hs)) @ s) @ drop 32 (rev (slice 8 56 hs))"
      by (auto simp: lens create_aes_digest magic_ok_def trial_decryption_def slice_prekey slice_iv
          split_beta Let_def)
    then show ?thesis by simp
  qed
qed

lemma handle_handshake_writer:
  assumes "handle_handshake E H users rdr = Inr (Some clt)"
  shows "\<exists>ek eiv. length ek = 32 \<and> length eiv = 16 \<and>
     clt_enc_key_and_iv clt = ek @ eiv \<and>
     clt_writer clt =
       Ctr \<lparr>aes_key = ek, counter = word_of_int (from_bytes_big eiv), remaining_counter = []\<rparr>"
proof -
  obtain buf e where r: "rdr = (buf, e)" by (cases rdr)
  with assms have l: "64 \<le> length buf"
    by (auto simp: handle_handshake_def readexactly_def HANDSHAKE_LEN_def split: if_splits ending.splits)
  with assms r have "handshake_users E H (take 64 buf) users = Inr (Some clt)"
    by (simp add: handle_handshake_read)
  from handshake_users_writer [OF this] l show ?thesis
    by (auto simp: slice_def)
qed

text \<open>
  Claim C1. When the client handshake succeeds and \<open>do_direct_handshake\<close>, given the
  48 bytes \<open>enc_key || enc_iv\<close> of that handshake, returns its wrappers, the decryptor of
  the upstream reader and the encryptor of the client writer are cipher objects in the same
  state: the same key (the first 32 of the 48 bytes), the same IV (the last 16) and nothing
  consumed. So for every sequence of reads from the datacenter (data, end of stream or
  faults), the pump towards the client makes the same calls with the same bytes on the
  client connection, and the same changes to the registry, with the two identity
  transforms as with decrypting under the upstream decryptor and encrypting again under
  the client encryptor.
\<close>

theorem fast_mode_equivalence:
  assumes "handle_handshake E H users rdr = Inr (Some clt)"
    and "do_direct_handshake E ipv6 (clt_dc_idx clt) (Some (clt_enc_key_and_iv clt)) conn draws dr
           = (Some (Inr (Some tg)), acts)"
  shows "(\<exists>c. tg_reader tg = Ctr c \<and> clt_writer clt = Ctr c \<and>
             remaining_counter c = [] \<and>
             aes_key c = take 32 (clt_enc_key_and_iv clt) \<and>
             counter c = word_of_int (from_bytes_big (drop 32 (clt_enc_key_and_iv clt)))) \<and>
         snd (run_pump E evs
                (\<lparr>pc = NotStarted, rd = tg_reader tg, wr = clt_writer clt,
                  dst = Client, pump_user = clt_user clt\<rparr>, st, a)) =
         snd (run_pump E evs
                (\<lparr>pc = NotStarted, rd = Fake, wr = Fake,
                  dst = Client, pump_user = clt_user clt\<rparr>, st, a))"
proof -
  from handle_handshake_writer [OF assms(1)] obtain ek eiv where
    k: "length ek = 32" "length eiv = 16" "clt_enc_key_and_iv clt = ek @ eiv"
    and w: "clt_writer clt =
       Ctr \<lparr>aes_key = ek, counter = word_of_int (from_bytes_big eiv), remaining_counter = []\<rparr>"
    by blast
  let ?c = "\<lparr>aes_key = ek, counter = word_of_int (from_bytes_big eiv), remaining_counter = []\<rparr>"
  from do_direct_handshake_success [OF assms(2)] obtain rnd0 dec where
    s: "sample_rnd draws = Some rnd0"
    and d: "create_aes (take 32 (rev (slice 8 56 (settle_rnd (Some (ek @ eiv)) rnd0))))
             (from_bytes_big (drop 32 (rev (slice 8 56 (settle_rnd (Some (ek @ eiv)) rnd0))))) = Inr dec"
    and t: "tg_reader tg = Ctr dec"
    unfolding k(3) by auto
  from sample_rnd_Some [OF s] have "length rnd0 = 64" by simp
  then have "slice 8 56 (settle_rnd (Some (ek @ eiv)) rnd0) = rev (ek @ eiv)"
    using k(1,2) by (intro settle_rnd_reuse) simp_all
  with d k(1,2) have "dec = ?c" by (simp add: create_aes_def)
  with t w have r: "tg_reader tg = Ctr ?c" "clt_writer clt = Ctr ?c" by simp_all
  have "fast_twin \<lparr>pc = NotStarted, rd = Ctr ?c, wr = Ctr ?c, dst = Client, pump_user = clt_user clt\<rparr>
          \<lparr>pc = NotStarted, rd = Fake, wr = Fake, dst = Client, pump_user = clt_user clt\<rparr>"
    by (simp add: fast_twin_def)
  from run_pump_twin [OF this, of E evs st a] r k show ?thesis by simp
qed

lemma demo_handshake:
  "handle_handshake toy_E toy_H demo_users (demo_preamble, EOF) =
     Inr (Some (accepted toy_E toy_H demo_preamble ''bob'' demo_secret))"
  by code_simp

lemma demo_accepted_fields:
  "clt_dc_idx (accepted toy_E toy_H demo_preamble ''bob'' demo_secret) = 0"
  "clt_enc_key_and_iv (accepted toy_E toy_H demo_preamble ''bob'' demo_secret) = demo_key_material"
  by code_simp+

text \<open>The theorem of claim C1 at the demonstration values, for a pump that is started,
  reads three bytes and then the end of the stream.\<close>

theorem fast_mode_equivalence_witness:
  "(\<exists>c. tg_reader demo_tg = Ctr c \<and>
        clt_writer (accepted toy_E toy_H demo_preamble ''bob'' demo_secret) = Ctr c \<and>
        remaining_counter c = [] \<and>
        aes_key c = take 32 demo_key_material \<and>
        counter c = word_of_int (from_bytes_big (drop 32 demo_key_material))) \<and>
   snd (run_pump toy_E [Start, ReadReturns [1, 2, 3] None None, ReadReturns [] None None]
          (\<lparr>pc = NotStarted, rd = tg_reader demo_tg,
            wr = clt_writer (accepted toy_E toy_H demo_preamble ''bob'' demo_secret),
            dst = Client, pump_user = ''bob''\<rparr>, Map.empty, [])) =
   snd (run_pump toy_E [Start, ReadReturns [1, 2, 3] None None, ReadReturns [] None None]
          (\<lparr>pc = NotStarted, rd = Fake, wr = Fake, dst = Client, pump_user = ''bob''\<rparr>,
           Map.empty, []))"
proof -
  have u: "clt_user (accepted toy_E toy_H demo_preamble ''bob'' demo_secret) = ''bob''"
    by (simp add: accepted_def)
  have d: "do_direct_handshake toy_E False
             (clt_dc_idx (accepted toy_E toy_H demo_preamble ''bob'' demo_secret))
             (Some (clt_enc_key_and_iv (accepted toy_E toy_H demo_preamble ''bob'' demo_secret)))
             None demo_draws None
           = (Some (Inr (Some demo_tg)),
              snd (do_direct_handshake toy_E False 0 (Some demo_key_material) None demo_draws None))"
    unfolding demo_accepted_fields by (rule demo_direct)
  from fast_mode_equivalence [OF demo_handshake d,
      of "[Start, ReadReturns [1, 2, 3] None None, ReadReturns [] None None]" Map.empty "[]"]
  show ?thesis unfolding demo_accepted_fields u .
qed

section \<open>The supervisor\<close>

text \<open>
  The pumps that \<open>handle_client\<close> schedules are not started yet, write to the client and
  to the datacenter, and are for the same user; in fast mode the pump towards the client
  holds the two identity transforms. A pump catches every \<open>OSError\<close> of its read.
\<close>

lemma handle_client_pumps:
  assumes "handle_client E H cfg env st = (Some (Inr (Some (pa, pb))), st', acts)"
  shows "pc pa = NotStarted \<and> pc pb = NotStarted \<and> dst pa = Client \<and> dst pb = Telegram \<and>
         pump_user pa = pump_user pb \<and>
         (FAST_MODE cfg \<longrightarrow> rd pa = Fake \<and> wr pa = Fake)"
  using assms
  by (auto simp: handle_client_def Let_def USE_MIDDLE_PROXY_def split_beta
      split: sum.splits option.splits if_splits)

lemma pump_contains_transport_faults:
  "is_OSError e \<Longrightarrow>
   fst (pump_step E (ReadRaises e) (p\<lparr>pc := InLoop\<rparr>, st, acts)) = p\<lparr>pc := Exited None\<rparr>"
  by (simp add: pump_exit_def pump_catches_def)

lemma do_direct_handshake_out_of_range:
  "\<not> (0 \<le> idx \<and> idx < 5) \<Longrightarrow>
   do_direct_handshake E ipv6 idx reuse conn draws dr = (Some (Inr None), [])"
  by (auto simp: do_direct_handshake_def choose_dc_def TG_DATACENTERS_V4_def TG_DATACENTERS_V6_def)

lemma handle_client_accept:
  assumes "handle_handshake E H (USERS cfg) (env_client env) = Inr (Some clt)"
    and "\<not> (0 \<le> clt_dc_idx clt \<and> clt_dc_idx clt < 5)"
  shows "handle_client E H cfg env st =
           (Some (Inr None), update_stats (clt_user clt) 1 0 0 st,
            [ReadExactly 64, Close Client])"
  using assms
  by (simp add: handle_client_def Let_def USE_MIDDLE_PROXY_def HANDSHAKE_LEN_def
      do_direct_handshake_out_of_range)

text \<open>
  Claim C9. When the datacenter field of the preamble (bytes 60..62 of the decryption,
  little-endian and signed) is 0 for the first user that matches, \<open>handle_handshake\<close>
  still succeeds for that user, with the datacenter index -1. \<open>do_direct_handshake\<close>
  then returns \<open>False\<close> at its bounds check, whether \<open>PREFER_IPV6\<close> is set or not,
  without opening a connection, and the supervisor counts the connection for the user and
  closes the client.
\<close>

theorem zero_dc_disconnects:
  assumes "env_client env = (buf, e)" and "64 \<le> length buf"
    and "USERS cfg = pre @ (U, hexU) # post"
    and "\<forall>(u, h) \<in> set pre. \<exists>s. fromhex h = Some s \<and> \<not> magic_ok E H (take 64 buf) s"
    and "fromhex hexU = Some secret"
    and "magic_ok E H (take 64 buf) secret"
    and "from_bytes_little_signed (slice 60 62 (trial_decryption E H (take 64 buf) secret)) = 0"
  shows "(\<exists>clt. handle_handshake E H (USERS cfg) (buf, e) = Inr (Some clt) \<and>
            clt_user clt = U \<and> clt_dc_idx clt = - 1) \<and>
         do_direct_handshake E True (- 1) reuse conn draws dr = (Some (Inr None), []) \<and>
         do_direct_handshake E False (- 1) reuse conn draws dr = (Some (Inr None), []) \<and>
         handle_client_wrapper E H cfg env st =
           (Some (Inr None), update_stats U 1 0 0 st, [ReadExactly 64, Close Client])"
proof -
  let ?clt = "accepted E H (take 64 buf) U secret"
  from assms(2) have len: "length (take 64 buf) = 64" by simp
  from assms(2) have "handle_handshake E H (USERS cfg) (buf, e) =
      handshake_users E H (take 64 buf) (USERS cfg)"
    by (rule handle_handshake_read)
  also have "\<dots> = Inr (Some ?clt)"
    unfolding assms(3) using assms(4-6) len by (rule handshake_users_first_match)
  finally have hh: "handle_handshake E H (USERS cfg) (buf, e) = Inr (Some ?clt)" .
  have u: "clt_user ?clt = U" and i: "clt_dc_idx ?clt = - 1"
    using assms(7) by (simp_all add: accepted_def)
  from hh assms(1) i have "handle_client E H cfg env st =
      (Some (Inr None), update_stats (clt_user ?clt) 1 0 0 st, [ReadExactly 64, Close Client])"
    by (intro handle_client_accept) simp_all
  with hh u i show ?thesis
    by (simp add: handle_client_wrapper_def do_direct_handshake_out_of_range)
qed

lemma demo_alice_fails_dc0:
  "\<forall>(u, h) \<in> set [(''alice'', ''00000000000000000000000000000001'')].
     \<exists>s. fromhex h = Some s \<and> \<not> magic_ok toy_E toy_H (take 64 demo_preamble_dc0) s"
proof -
  have "fromhex ''00000000000000000000000000000001'' = Some [0, 0, 0, 0, 0, 0, 0, 0, 0, 0, 0, 0, 0, 0, 0, 1]
      \<and> \<not> magic_ok toy_E toy_H (take 64 demo_preamble_dc0) [0, 0, 0, 0, 0, 0, 0, 0, 0, 0, 0, 0, 0, 0, 0, 1]"
    by code_simp
  then show ?thesis by auto
qed

lemma demo_bob_matches_dc0: "magic_ok toy_E toy_H (take 64 demo_preamble_dc0) demo_secret"
  by code_simp

lemma demo_dc0_field:
  "from_bytes_little_signed (slice 60 62 (trial_decryption toy_E toy_H (take 64 demo_preamble_dc0) demo_secret)) = 0"
  by code_simp

text \<open>The theorem of claim C9 at the demonstration preamble whose datacenter field
  decrypts to 0.\<close>

theorem zero_dc_disconnects_witness:
  "(\<exists>clt. handle_handshake toy_E toy_H (USERS demo_cfg) (demo_preamble_dc0, EOF) = Inr (Some clt) \<and>
       clt_user clt = ''bob'' \<and> clt_dc_idx clt = - 1) \<and>
   do_direct_handshake toy_E True (- 1) (Some demo_key_material) None demo_draws None
     = (Some (Inr None), []) \<and>
   do_direct_handshake toy_E False (- 1) (Some demo_key_material) None demo_draws None
     = (Some (Inr None), []) \<and>
   handle_client_wrapper toy_E toy_H demo_cfg (demo_env (demo_preamble_dc0, EOF) None) Map.empty =
     (Some (Inr None), update_stats ''bob'' 1 0 0 Map.empty, [ReadExactly 64, Close Client])"
proof -
  have a: "env_client (demo_env (demo_preamble_dc0, EOF) None) = (demo_preamble_dc0, EOF)"
    by (simp add: demo_env_def)
  have b: "64 \<le> length demo_preamble_dc0" by (simp add: demo_preamble_dc0_def)
  have c: "USERS demo_cfg = [(''alice'', ''00000000000000000000000000000001'')] @
      (''bob'', ''00000000000000000000000000000002'') # []"
    by (simp add: demo_cfg_def demo_users_def)
  show ?thesis
    by (rule zero_dc_disconnects [OF a b c demo_alice_fails_dc0 demo_bob_secret
          demo_bob_matches_dc0 demo_dc0_field])
qed

text \<open>
  Claim C5. When the client's stream ends before 64 bytes, or 64 bytes arrive and no
  configured user's trial decryption shows the magic at bytes 56..60, \<open>handle_handshake\<close>
  raises the incomplete-read error or returns \<open>False\<close>, and all that the supervisor does
  is one \<open>readexactly(64)\<close> and one \<open>close\<close> of the client: nothing is written to the
  client, and the registry is left as it was.
\<close>

theorem handshake_rejection:
  assumes "env_client env = (buf, e)"
    and "(length buf < 64 \<and> e = EOF) \<or>
         (64 \<le> length buf \<and>
          (\<forall>(u, h) \<in> set (USERS cfg). \<exists>s. fromhex h = Some s \<and> \<not> magic_ok E H (take 64 buf) s))"
  shows "(handle_handshake E H (USERS cfg) (buf, e) = Inl IncompleteReadError \<or>
          handle_handshake E H (USERS cfg) (buf, e) = Inr None) \<and>
         handle_client_wrapper E H cfg env st =
           (Some (Inr None), st, [ReadExactly 64, Close Client])"
  using assms(2)
proof
  assume "length buf < 64 \<and> e = EOF"
  then have "handle_handshake E H (USERS cfg) (buf, e) = Inl IncompleteReadError"
    by (simp add: handle_handshake_def readexactly_def HANDSHAKE_LEN_def)
  with assms(1) show ?thesis
    by (simp add: handle_client_wrapper_def handle_client_def wrapper_catches_def HANDSHAKE_LEN_def)
next
  assume a: "64 \<le> length buf \<and>
          (\<forall>(u, h) \<in> set (USERS cfg). \<exists>s. fromhex h = Some s \<and> \<not> magic_ok E H (take 64 buf) s)"
  then have "handle_handshake E H (USERS cfg) (buf, e) = handshake_users E H (take 64 buf) (USERS cfg)"
    by (simp add: handle_handshake_read)
  also from a have "\<dots> = Inr None" by (intro handshake_users_no_match) simp
  finally have "handle_handshake E H (USERS cfg) (buf, e) = Inr None" .
  with assms(1) show ?thesis
    by (simp add: handle_client_wrapper_def handle_client_def HANDSHAKE_LEN_def)
qed

lemma demo_nobody_matches:
  "\<forall>(u, h) \<in> set (USERS (demo_cfg\<lparr>USERS := [(''alice'', ''00000000000000000000000000000001'')]\<rparr>)).
     \<exists>s. fromhex h = Some s \<and> \<not> magic_ok toy_E toy_H (take 64 demo_preamble) s"
proof -
  have "fromhex ''00000000000000000000000000000001'' = Some [0, 0, 0, 0, 0, 0, 0, 0, 0, 0, 0, 0, 0, 0, 0, 1]
      \<and> \<not> magic_ok toy_E toy_H (take 64 demo_preamble) [0, 0, 0, 0, 0, 0, 0, 0, 0, 0, 0, 0, 0, 0, 0, 1]"
    by code_simp
  then show ?thesis by auto
qed

text \<open>The theorem of claim C5 at a stream of three bytes, and at the demonstration
  preamble with a table that holds only the user it does not match.\<close>

theorem handshake_rejection_witness:
  "handle_handshake toy_E toy_H (USERS demo_cfg) ([1, 2, 3], EOF) = Inl IncompleteReadError \<and>
   handle_client_wrapper toy_E toy_H demo_cfg (demo_env ([1, 2, 3], EOF) None) Map.empty =
     (Some (Inr None), Map.empty, [ReadExactly 64, Close Client]) \<and>
   handle_handshake toy_E toy_H [(''alice'', ''00000000000000000000000000000001'')]
       (demo_preamble, EOF) = Inr None \<and>
   handle_client_wrapper toy_E toy_H
       (demo_cfg\<lparr>USERS := [(''alice'', ''00000000000000000000000000000001'')]\<rparr>)
       (demo_env (demo_preamble, EOF) None) Map.empty =
     (Some (Inr None), Map.empty, [ReadExactly 64, Close Client])"
proof -
  have a: "env_client (demo_env ([1, 2, 3], EOF) None) = ([1, 2, 3], EOF)"
    by (simp add: demo_env_def)
  have b: "(length [1, 2, 3 :: byte] < 64 \<and> EOF = EOF) \<or>
         (64 \<le> length [1, 2, 3 :: byte] \<and>
          (\<forall>(u, h) \<in> set (USERS demo_cfg). \<exists>s. fromhex h = Some s \<and>
              \<not> magic_ok toy_E toy_H (take 64 [1, 2, 3]) s))"
    by simp
  have c: "env_client (demo_env (demo_preamble, EOF) None) = (demo_preamble, EOF)"
    by (simp add: demo_env_def)
  have l: "64 \<le> length demo_preamble" by (simp add: demo_preamble_def)
  have d: "(length demo_preamble < 64 \<and> EOF = EOF) \<or>
         (64 \<le> length demo_preamble \<and>
          (\<forall>(u, h) \<in> set (USERS (demo_cfg\<lparr>USERS := [(''alice'', ''00000000000000000000000000000001'')]\<rparr>)).
             \<exists>s. fromhex h = Some s \<and> \<not> magic_ok toy_E toy_H (take 64 demo_preamble) s))"
    using l demo_nobody_matches by blast
  have s: "handle_handshake toy_E toy_H (USERS demo_cfg) ([1, 2, 3], EOF) = Inl IncompleteReadError"
    by (simp add: handle_handshake_def readexactly_def HANDSHAKE_LEN_def)
  have n: "handle_handshake toy_E toy_H [(''alice'', ''00000000000000000000000000000001'')]
       (demo_preamble, EOF) = Inr None"
    by code_simp
  from handshake_rejection [OF a b, where st = Map.empty]
       handshake_rejection [OF c d, where st = Map.empty] s n
  show ?thesis by simp
qed

text \<open>
  Claim C4 does not hold of \<open>handle_client_wrapper\<close>. A \<open>BrokenPipeError\<close> or a plain
  \<open>OSError\<close> on the client's stream during the 64-byte read leaves the wrapper as an
  exception, and so does a \<open>BrokenPipeError\<close> of \<open>drain\<close> during the upstream
  handshake, in which case the client is not closed either. The \<open>except\<close> clause of the
  pumps names both classes; the one of the wrapper names neither.
\<close>

theorem wrapper_lets_transport_faults_through:
  "fst (handle_client_wrapper toy_E toy_H demo_cfg (demo_env ([], Fault BrokenPipeError) None) Map.empty)
     = Some (Inl BrokenPipeError) \<and>
   snd (snd (handle_client_wrapper toy_E toy_H demo_cfg
               (demo_env ([], Fault BrokenPipeError) None) Map.empty))
     = [ReadExactly 64] \<and>
   fst (handle_client_wrapper toy_E toy_H demo_cfg (demo_env ([], Fault OSError) None) Map.empty)
     = Some (Inl OSError) \<and>
   fst (handle_client_wrapper toy_E toy_H demo_cfg
          (demo_env (demo_preamble, EOF) (Some BrokenPipeError)) Map.empty)
     = Some (Inl BrokenPipeError) \<and>
   Close Client \<notin> set (snd (snd (handle_client_wrapper toy_E toy_H demo_cfg
          (demo_env (demo_preamble, EOF) (Some BrokenPipeError)) Map.empty))) \<and>
   pump_catches BrokenPipeError \<and> pump_catches OSError \<and>
   \<not> wrapper_catches BrokenPipeError \<and> \<not> wrapper_catches OSError"
  by code_simp

end
